theory Spec2Isabelle
  imports Main "HOL-Library.Word"
begin

section \<open>Block synchronisation (core/ordering/cosipbft/blocksync/default.go)\<close>

text \<open>
  The synchroniser and its stream handler share one \<open>uint64\<close> cell, \<open>latest\<close>
  (\<open>NewSynchronizer\<close> hands the same pointer to both). Indices are 64-bit unsigned
  integers. Addresses are compared by identity of their text; an address can be
  wrapped (the session wraps the source of every received message).
\<close>

type_synonym u64 = "64 word"

datatype address = Addr string | WrapAddr address

type_synonym link = string

text \<open>The four messages of the protocol; any other message is \<open>OtherMessage\<close>.\<close>

datatype message =
    SyncMessage u64
  | SyncRequest u64
  | SyncReply link
  | SyncAck
  | OtherMessage

text \<open>
  One call of \<open>Receiver.Recv\<close>: a message with its sender, or an error. The
  receiver is given as the list of the results of its successive calls; when the list
  is used up the next \<open>Recv\<close> never returns.
\<close>

datatype recv = RecvMsg address message | RecvErr string

datatype 'a outcome = Returned 'a | Blocked

text \<open>
  What the handler reads and calls outside of itself, over a state \<open>'w\<close> of the
  outside world: the length of the block store, the catch up of the PBFT state
  machine, and the first value read from the channel of \<open>out.Send\<close> (\<open>None\<close> is nil).
\<close>

record 'w handler_env =
  blocks_Len :: "'w \<Rightarrow> u64"
  pbftsm_CatchUp :: "link \<Rightarrow> 'w \<Rightarrow> string option \<times> 'w"
  out_Send :: "message \<Rightarrow> address \<Rightarrow> 'w \<Rightarrow> string option \<times> 'w"

record 'w handler =
  latest :: u64
  world :: "'w"

definition GetLatest :: "'w handler \<Rightarrow> u64" where
  "GetLatest s = latest s"

text \<open>\<open>waitAnnounce\<close>: skip every message that is not an announcement.\<close>

fun waitAnnounce :: "recv list \<Rightarrow> (string + u64 \<times> address) outcome \<times> recv list" where
  "waitAnnounce [] = (Blocked, [])"
| "waitAnnounce (RecvErr e # rs) = (Returned (Inl (''receiver failed: '' @ e)), rs)"
| "waitAnnounce (RecvMsg orch (SyncMessage idx) # rs) = (Returned (Inr (idx, orch)), rs)"
| "waitAnnounce (RecvMsg orch m # rs) = waitAnnounce rs"

definition ack :: "'w handler_env \<Rightarrow> address \<Rightarrow> 'w \<Rightarrow> string option \<times> 'w" where
  "ack env orch w =
     (case out_Send env SyncAck orch w of
        (Some e, w') \<Rightarrow> (Some (''sending ack failed: '' @ e), w')
      | (None, w') \<Rightarrow> (None, w'))"

text \<open>The catch-up loop of \<open>Stream\<close>: \<open>for h.blocks.Len() < m.GetLatestIndex()\<close>.\<close>

fun catch_up_loop ::
  "'w handler_env \<Rightarrow> u64 \<Rightarrow> address \<Rightarrow> recv list \<Rightarrow> 'w \<Rightarrow> string option outcome \<times> 'w"
where
  "catch_up_loop env idx orch rs w =
     (if blocks_Len env w < idx then
        (case rs of
           [] \<Rightarrow> (Blocked, w)
         | RecvErr e # rs' \<Rightarrow> (Returned (Some (''receiver failed: '' @ e)), w)
         | RecvMsg from (SyncReply l) # rs' \<Rightarrow>
             (case pbftsm_CatchUp env l w of
                (Some e, w') \<Rightarrow> (Returned (Some (''pbft catch up failed: '' @ e)), w')
              | (None, w') \<Rightarrow> catch_up_loop env idx orch rs' w')
         | RecvMsg from m # rs' \<Rightarrow> catch_up_loop env idx orch rs' w)
      else
        (case ack env orch w of (r, w') \<Rightarrow> (Returned r, w')))"

text \<open>
  \<open>handler.Stream\<close>. The store of \<open>latest\<close> happens under the handler's lock, and
  only when the announced index is strictly greater than the value loaded.
\<close>

definition Stream ::
  "'w handler_env \<Rightarrow> recv list \<Rightarrow> 'w handler \<Rightarrow> string option outcome \<times> 'w handler"
where
  "Stream env rs h =
     (case waitAnnounce rs of
        (Blocked, rs') \<Rightarrow> (Blocked, h)
      | (Returned (Inl e), rs') \<Rightarrow> (Returned (Some (''no announcement: '' @ e)), h)
      | (Returned (Inr (idx, orch)), rs') \<Rightarrow>
          if idx \<le> blocks_Len env (world h) then
            (case ack env orch (world h) of (r, w') \<Rightarrow> (Returned r, h\<lparr>world := w'\<rparr>))
          else
            let h1 = (if idx > latest h then h\<lparr>latest := idx\<rparr> else h) in
            (case out_Send env (SyncRequest (blocks_Len env (world h1))) orch (world h1) of
               (Some e, w') \<Rightarrow>
                 (Returned (Some (''sending request failed: '' @ e)), h1\<lparr>world := w'\<rparr>)
             | (None, w') \<Rightarrow>
                 (case catch_up_loop env idx orch rs' w' of
                    (r, w'') \<Rightarrow> (r, h1\<lparr>world := w''\<rparr>))))"

text \<open>Successive stream calls served by one handler, each with its own receiver.\<close>

fun serve :: "'w handler_env \<Rightarrow> recv list list \<Rightarrow> 'w handler \<Rightarrow> 'w handler" where
  "serve env [] h = h"
| "serve env (rs # rss) h = serve env rss (snd (Stream env rs h))"

subsection \<open>The orchestrator: \<open>Sync\<close>, \<open>routine\<close>, \<open>syncNode\<close>\<close>

text \<open>
  An event of the synchronisation as the caller sees it, and the channel returned by
  \<open>Sync\<close>: every event ever sent on it (\<open>sendToChannel\<close> drops the pending one and
  sends the new one) and whether it has been closed.
\<close>

record event =
  Soft :: nat
  Hard :: nat
  Errors :: "string list"

record event_chan =
  published :: "event list"
  ch_closed :: bool

text \<open>
  The collaborators of the orchestrator over a world \<open>'w\<close>: opening the stream, the
  sender (the values its channel yields until it is closed, \<open>None\<close> for nil), the block
  store.
\<close>

record 'w sync_env =
  rpc_Stream :: "'w \<Rightarrow> string option \<times> 'w"
  sender_Send :: "message \<Rightarrow> address list \<Rightarrow> 'w \<Rightarrow> string option list \<times> 'w"
  store_Len :: "'w \<Rightarrow> u64"
  store_GetByIndex :: "u64 \<Rightarrow> 'w \<Rightarrow> string + link"

text \<open>\<open>for err := range errs { if err != nil { return ... } }\<close>: the first non-nil value.\<close>

fun first_error :: "string option list \<Rightarrow> string option" where
  "first_error [] = None"
| "first_error (None # es) = first_error es"
| "first_error (Some e # es) = Some e"

text \<open>\<open>err = <-ch\<close>: the first value of the channel, nil when it is closed empty.\<close>

fun first_value :: "string option list \<Rightarrow> string option" where
  "first_value [] = None"
| "first_value (e # es) = e"

text \<open>
  \<open>syncNode\<close>: \<open>for i := from; i < s.blocks.Len(); i++\<close>. The index is a \<open>uint64\<close>
  that is incremented only below the length, so the loop ends.
\<close>

function syncNode ::
  "'w sync_env \<Rightarrow> u64 \<Rightarrow> address \<Rightarrow> 'w \<Rightarrow> string option \<times> 'w"
where
  "syncNode env i to w =
     (if i < store_Len env w then
        (case store_GetByIndex env i w of
           Inl e \<Rightarrow> (Some (''couldn't get block: '' @ e), w)
         | Inr l \<Rightarrow>
             (case sender_Send env (SyncReply l) [to] w of
                (errs, w') \<Rightarrow>
                  (case first_value errs of
                     Some e \<Rightarrow> (Some (''failed to send block: '' @ e), w')
                   | None \<Rightarrow> syncNode env (i + 1) to w')))
      else (None, w))"
  by pat_completeness auto
termination
proof (relation "measure (\<lambda>(env, i, to, w). 2 ^ 64 - unat i)")
  show "wf (measure (\<lambda>(env :: 'w sync_env, i :: u64, to :: address, w :: 'w). 2 ^ 64 - unat i))"
    by simp
next
  fix env :: "'w sync_env" and i :: u64 and to :: address and w w' :: 'w
  assume h: "i < store_Len env w"
  have "unat i < unat (store_Len env w)"
    using h by (simp add: word_less_nat_alt)
  moreover have "unat (store_Len env w) < 2 ^ 64"
    using unsigned_less [of "store_Len env w"] by simp
  ultimately have "unat i + 1 < 2 ^ 64"
    by simp
  then have "unat (i + 1) = Suc (unat i)"
    by (simp add: unat_word_ariths)
  moreover have "unat i < 2 ^ 64"
    using unsigned_less [of i] by simp
  ultimately show "((env, i + 1, to, w'), (env, i, to, w))
      \<in> measure (\<lambda>(env, i, to, w). 2 ^ 64 - unat i)"
    by simp
qed

definition sendToChannel ::
  "event list \<Rightarrow> address list \<Rightarrow> address list \<Rightarrow> string list \<Rightarrow> event list"
where
  "sendToChannel ch soft hard errs =
     ch @ [\<lparr>Soft = length soft, Hard = length hard, Errors = errs\<rparr>]"

text \<open>
  The receive loop of \<open>routine\<close>: \<open>for len(hard) < players.Len()\<close>. The two sets are
  lists without repetition. The result holds the error returned (if the routine
  returns), the events sent, the receives not yet made, and the world.
\<close>

fun routine_loop ::
  "'w sync_env \<Rightarrow> nat \<Rightarrow> address list \<Rightarrow> address list \<Rightarrow> string list \<Rightarrow> event list \<Rightarrow>
   recv list \<Rightarrow> 'w \<Rightarrow> string option outcome \<times> event list \<times> recv list \<times> 'w"
where
  "routine_loop env n soft hard hardErrs ch rs w =
     (if length hard < n then
        (case rs of
           [] \<Rightarrow> (Blocked, ch, [], w)
         | RecvErr e # rs' \<Rightarrow> (Returned (Some (''receiver failed: '' @ e)), ch, rs', w)
         | RecvMsg from (SyncRequest idx) # rs' \<Rightarrow>
             if from \<in> set soft then routine_loop env n soft hard hardErrs ch rs' w
             else
               let soft' = List.insert from soft;
                   ch' = sendToChannel ch soft' hard hardErrs
               in (case syncNode env idx from w of
                     (Some e, w') \<Rightarrow>
                       let hard' = List.insert from hard;
                           hardErrs' = hardErrs @ [e];
                           ch'' = sendToChannel ch' soft' hard' hardErrs'
                       in routine_loop env n soft' hard' hardErrs' ch'' rs' w'
                   | (None, w') \<Rightarrow> routine_loop env n soft' hard hardErrs ch' rs' w')
         | RecvMsg from SyncAck # rs' \<Rightarrow>
             let soft' = List.insert from soft;
                 hard' = List.insert from hard;
                 ch' = sendToChannel ch soft' hard' hardErrs
             in routine_loop env n soft' hard' hardErrs ch' rs' w
         | RecvMsg from m # rs' \<Rightarrow> routine_loop env n soft hard hardErrs ch rs' w)
      else (Returned None, ch, rs, w))"

definition routine ::
  "'w sync_env \<Rightarrow> address list \<Rightarrow> recv list \<Rightarrow> 'w \<Rightarrow>
   string option outcome \<times> event list \<times> recv list \<times> 'w"
where
  "routine env players rs w =
     (case rpc_Stream env w of
        (Some e, w1) \<Rightarrow> (Returned (Some (''stream failed: '' @ e)), [], rs, w1)
      | (None, w1) \<Rightarrow>
          (case sender_Send env (SyncMessage (store_Len env w1)) players w1 of
             (errs, w2) \<Rightarrow>
               (case first_error errs of
                  Some e \<Rightarrow> (Returned (Some (''announcement failed: '' @ e)), [], rs, w2)
                | None \<Rightarrow> routine_loop env (length players) [] [] [] [] rs w2)))"

text \<open>
  \<open>Sync\<close>: the goroutine runs the routine and closes the channel when it returns; the
  error is only logged.
\<close>

definition Sync :: "'w sync_env \<Rightarrow> address list \<Rightarrow> recv list \<Rightarrow> 'w \<Rightarrow> event_chan" where
  "Sync env players rs w =
     (case routine env players rs w of
        (Returned r, ch, rs', w') \<Rightarrow> \<lparr>published = ch, ch_closed = True\<rparr>
      | (Blocked, ch, rs', w') \<Rightarrow> \<lparr>published = ch, ch_closed = False\<rparr>)"

section \<open>The session of a stream (mino/minogrpc/session)\<close>

subsection \<open>Channels of errors\<close>

text \<open>
  A call either returns, never returns (it waits for ever on a channel or a wait
  group, or retries without end), or panics.
\<close>

datatype 'a res = Ret 'a | Stuck | Panic string

text \<open>
  A Go channel of errors is kept as the history of what was done to it, in order. A
  send on a closed channel and a second close panic. A send waits while the buffer is
  full: \<open>receiver\<close> says whether another goroutine receives from the channel while the
  sender runs (then a send always goes through); without one, only \<open>cap\<close> values fit.
\<close>

datatype chan_event = Pushed string | Closed

record chan =
  history :: "chan_event list"
  cap :: nat
  receiver :: bool

definition make_chan :: "nat \<Rightarrow> bool \<Rightarrow> chan" where
  "make_chan n r = \<lparr>history = [], cap = n, receiver = r\<rparr>"

definition is_closed :: "chan \<Rightarrow> bool" where
  "is_closed c = (Closed \<in> set (history c))"

fun pushed :: "chan_event list \<Rightarrow> string list" where
  "pushed [] = []"
| "pushed (Pushed e # evs) = e # pushed evs"
| "pushed (Closed # evs) = pushed evs"

definition chan_send :: "chan \<Rightarrow> string \<Rightarrow> chan res" where
  "chan_send c e =
     (if is_closed c then Panic ''send on closed channel''
      else if receiver c \<or> length (history c) < cap c
        then Ret (c\<lparr>history := history c @ [Pushed e]\<rparr>)
      else Stuck)"

definition chan_close :: "chan \<Rightarrow> chan res" where
  "chan_close c =
     (if is_closed c then Panic ''close of closed channel''
      else Ret (c\<lparr>history := history c @ [Closed]\<rparr>))"

text \<open>Several sends in a row, as the loops over \<open>voids\<close> and \<open>ack.Errors\<close> do.\<close>

fun chan_send_all :: "chan \<Rightarrow> string list \<Rightarrow> chan res" where
  "chan_send_all c [] = Ret c"
| "chan_send_all c (e # es) =
     (case chan_send c e of
        Ret c' \<Rightarrow> chan_send_all c' es
      | Stuck \<Rightarrow> Stuck
      | Panic m \<Rightarrow> Panic m)"

subsection \<open>Addresses, packets, streams and relays\<close>

text \<open>
  Modelled from the spec: the wrapped address (\<open>wrapAddress\<close>, \<open>newWrapAddress\<close> and
  \<open>Unwrap\<close> are declared outside of the files at hand). A wrapped address holds the
  address it hides, and \<open>Unwrap\<close> gives it back. \<open>Send\<close> applies \<open>Unwrap\<close> to the
  wrapped addresses only, once each.
\<close>

fun Unwrap :: "address \<Rightarrow> address" where
  "Unwrap (WrapAddr a) = a"
| "Unwrap (Addr t) = Addr t"

fun address_String :: "address \<Rightarrow> string" where
  "address_String (Addr t) = t"
| "address_String (WrapAddr a) = address_String a"

definition digit_char :: "nat \<Rightarrow> char" where
  "digit_char d = ''0123456789'' ! d"

fun show_nat :: "nat \<Rightarrow> string" where
  "show_nat n = (if n < 10 then [digit_char n] else show_nat (n div 10) @ [digit_char (n mod 10)])"

text \<open>
  Modelled from the spec: a packet holds a source, destinations and a payload, read by
  \<open>GetSource\<close>, \<open>GetDestination\<close> and \<open>GetMessage\<close>.
\<close>

record packet =
  source :: address
  dest :: "address list"
  payload :: string

text \<open>
  A packet stream; \<open>client\<close> says whether it is an \<open>Overlay_StreamClient\<close>, which
  is what the type assertion of \<open>unicastRelay.Close\<close> tests.
\<close>

record stream =
  sid :: string
  client :: bool

datatype relay = unicastRelay address stream | streamRelay address stream

fun GetDistantAddress :: "relay \<Rightarrow> address" where
  "GetDistantAddress (unicastRelay gw st) = gw"
| "GetDistantAddress (streamRelay gw st) = gw"

fun relay_Stream :: "relay \<Rightarrow> stream" where
  "relay_Stream (unicastRelay gw st) = st"
| "relay_Stream (streamRelay gw st) = st"

definition NewRelay :: "stream \<Rightarrow> address \<Rightarrow> relay" where
  "NewRelay st gw = unicastRelay gw st"

definition NewStreamRelay :: "address \<Rightarrow> stream \<Rightarrow> relay" where
  "NewStreamRelay gw st = streamRelay gw st"

text \<open>A routing table is an object of the world; the session holds a reference to it.\<close>

type_synonym table = nat

record parent =
  relay :: relay
  table :: table

text \<open>
  The collaborators of the session, whose code lies outside of the session package:
  serialisation, the packet and the routing table (package router), the queue, the
  connection manager, and the gRPC client and streams. Each is a function of the state
  \<open>'w\<close> of the world outside of the session; errors are the texts of Go's errors, and
  \<open>None\<close> is nil.

  Modelled from the spec: \<open>pkt_Slice\<close> is \<open>Packet.Slice\<close>. It gives the slice for
  the address together with the packet left over, or \<open>None\<close> (Go's nil) when the packet
  holds nothing for the address; the packet is then left as it was.

  The key of a route is \<open>None\<close> for Go's nil address: the packet goes up through the
  relay of the parent.
\<close>

record 'w session_env =
  msg_Serialize :: "message \<Rightarrow> string + string"
  pktFac_PacketOf :: "string \<Rightarrow> string + packet"
  msgFac_Deserialize :: "string \<Rightarrow> string + message"
  pkt_Slice :: "packet \<Rightarrow> address \<Rightarrow> (packet \<times> packet) option"
  pkt_Serialize :: "packet \<Rightarrow> string + string"
  table_Make :: "table \<Rightarrow> address \<Rightarrow> address list \<Rightarrow> string \<Rightarrow> 'w \<Rightarrow> packet"
  table_Forward ::
    "table \<Rightarrow> packet \<Rightarrow> 'w \<Rightarrow> (address option \<times> packet) list \<times> (address \<times> string) list"
  table_PrepareHandshakeFor :: "table \<Rightarrow> address \<Rightarrow> 'w \<Rightarrow> string + string"
  table_OnFailure :: "table \<Rightarrow> address \<Rightarrow> 'w \<Rightarrow> string option \<times> 'w"
  queue_Push :: "packet \<Rightarrow> 'w \<Rightarrow> string option \<times> 'w"
  connMgr_Acquire :: "address \<Rightarrow> 'w \<Rightarrow> string option \<times> 'w"
  connMgr_Release :: "address \<Rightarrow> 'w \<Rightarrow> 'w"
  client_Stream :: "address \<Rightarrow> string \<Rightarrow> 'w \<Rightarrow> (string + string) \<times> 'w"
  client_Forward :: "address \<Rightarrow> string \<Rightarrow> 'w \<Rightarrow> (string + string list) \<times> 'w"
  stream_Header :: "stream \<Rightarrow> 'w \<Rightarrow> string option \<times> 'w"
  stream_Send :: "stream \<Rightarrow> string \<Rightarrow> 'w \<Rightarrow> string option \<times> 'w"
  stream_CloseSend :: "stream \<Rightarrow> 'w \<Rightarrow> string option \<times> 'w"
  status_Code :: "string \<Rightarrow> string"

subsection \<open>The two relays\<close>

definition unicastRelay_Send ::
  "'w session_env \<Rightarrow> address \<Rightarrow> packet \<Rightarrow> 'w \<Rightarrow> (string + string list) \<times> 'w"
where
  "unicastRelay_Send env gw p w =
     (case pkt_Serialize env p of
        Inl e \<Rightarrow> (Inl (''failed to serialize: '' @ e), w)
      | Inr data \<Rightarrow>
          (case client_Forward env gw data w of
             (Inl e, w') \<Rightarrow> (Inl (''client: '' @ e), w')
           | (Inr errors, w') \<Rightarrow> (Inr errors, w')))"

definition streamRelay_Send ::
  "'w session_env \<Rightarrow> stream \<Rightarrow> packet \<Rightarrow> 'w \<Rightarrow> (string + string list) \<times> 'w"
where
  "streamRelay_Send env st p w =
     (case pkt_Serialize env p of
        Inl e \<Rightarrow> (Inl (''failed to serialize: '' @ e), w)
      | Inr data \<Rightarrow>
          (case stream_Send env st data w of
             (Some e, w') \<Rightarrow> (Inl (''stream: '' @ e), w')
           | (None, w') \<Rightarrow> (Inr [], w')))"

fun relay_Send ::
  "'w session_env \<Rightarrow> relay \<Rightarrow> packet \<Rightarrow> 'w \<Rightarrow> (string + string list) \<times> 'w"
where
  "relay_Send env (unicastRelay gw st) p w = unicastRelay_Send env gw p w"
| "relay_Send env (streamRelay gw st) p w = streamRelay_Send env st p w"

text \<open>
  \<open>unicastRelay.Close\<close> closes the sending side of its stream when the stream is a
  client stream; \<open>streamRelay.Close\<close> does nothing, "as it is not responsible for
  closing the stream".
\<close>

definition unicastRelay_Close ::
  "'w session_env \<Rightarrow> stream \<Rightarrow> 'w \<Rightarrow> string option \<times> 'w"
where
  "unicastRelay_Close env st w =
     (if client st then
        (case stream_CloseSend env st w of
           (Some e, w') \<Rightarrow> (Some (''failed to close stream: '' @ e), w')
         | (None, w') \<Rightarrow> (None, w'))
      else (None, w))"

definition streamRelay_Close ::
  "'w session_env \<Rightarrow> stream \<Rightarrow> 'w \<Rightarrow> string option \<times> 'w"
where
  "streamRelay_Close env st w = (None, w)"

fun relay_Close :: "'w session_env \<Rightarrow> relay \<Rightarrow> 'w \<Rightarrow> string option \<times> 'w" where
  "relay_Close env (unicastRelay gw st) w = unicastRelay_Close env st w"
| "relay_Close env (streamRelay gw st) w = streamRelay_Close env st w"

subsection \<open>The session\<close>

text \<open>
  The fields of \<open>session\<close> that its methods change or read: the local address, the
  channel \<open>errs\<close> (one slot), the relays opened to the children, the counter of the wait
  group, the parents, and the world. The two maps are association lists; the order of
  \<open>parents\<close> is the order in which a \<open>range\<close> over the map visits them.
\<close>

record 'w session =
  me :: address
  errs :: chan
  relays :: "(address \<times> relay) list"
  wg :: nat
  parents :: "(address \<times> parent) list"
  net :: "'w"

definition NewSession :: "address \<Rightarrow> 'w \<Rightarrow> 'w session" where
  "NewSession a w =
     \<lparr>me = a, errs = make_chan 1 False, relays = [], wg = 0, parents = [], net = w\<rparr>"

definition GetNumParents :: "'w session \<Rightarrow> nat" where
  "GetNumParents s = length (parents s)"

fun map_put :: "'k \<Rightarrow> 'v \<Rightarrow> ('k \<times> 'v) list \<Rightarrow> ('k \<times> 'v) list" where
  "map_put k v [] = [(k, v)]"
| "map_put k v ((k', v') # kvs) =
     (if k = k' then (k, v) # kvs else (k', v') # map_put k v kvs)"

definition map_delete :: "'k \<Rightarrow> ('k \<times> 'v) list \<Rightarrow> ('k \<times> 'v) list" where
  "map_delete k kvs = filter (\<lambda>kv. fst kv \<noteq> k) kvs"

definition SetPassive :: "relay \<Rightarrow> table \<Rightarrow> 'w session \<Rightarrow> 'w session" where
  "SetPassive r t s =
     s\<lparr>parents := map_put (GetDistantAddress r) \<lparr>relay = r, table = t\<rparr> (parents s)\<rparr>"

text \<open>
  \<open>Close\<close>: \<open>close(s.errs)\<close>, then \<open>s.Wait()\<close>, which returns when the counter of the
  wait group is zero. The goroutines of the relays, which bring the counter down, run on
  their own.
\<close>

definition Wait :: "'w session \<Rightarrow> 'w session res" where
  "Wait s = (if wg s = 0 then Ret s else Stuck)"

definition Close :: "'w session \<Rightarrow> 'w session res" where
  "Close s =
     (case chan_close (errs s) of
        Ret c \<Rightarrow> Wait (s\<lparr>errs := c\<rparr>)
      | Stuck \<Rightarrow> Stuck
      | Panic m \<Rightarrow> Panic m)"

text \<open>
  \<open>setupRelay\<close>, under the lock of the session. The goroutine it starts for a new relay
  reads the stream until it ends; \<open>relay_goroutine\<close>, below, is what that goroutine does
  from then on.
\<close>

definition setupRelay ::
  "'w session_env \<Rightarrow> parent \<Rightarrow> address \<Rightarrow> 'w session \<Rightarrow> (string + relay) \<times> 'w session"
where
  "setupRelay env p addr s =
     (case map_of (relays s) addr of
        Some r \<Rightarrow> (Inr r, s)
      | None \<Rightarrow>
          (case table_PrepareHandshakeFor env (table p) addr (net s) of
             Inl e \<Rightarrow> (Inl (''failed to serialize handshake: '' @ e), s)
           | Inr hs \<Rightarrow>
               (case connMgr_Acquire env addr (net s) of
                  (Some e, w1) \<Rightarrow> (Inl (''failed to dial: '' @ e), s\<lparr>net := w1\<rparr>)
                | (None, w1) \<Rightarrow>
                    (case client_Stream env addr hs w1 of
                       (Inl e, w2) \<Rightarrow>
                         (Inl (''client: '' @ e), s\<lparr>net := connMgr_Release env addr w2\<rparr>)
                     | (Inr i, w2) \<Rightarrow>
                         (case stream_Header env \<lparr>sid = i, client = True\<rparr> w2 of
                            (Some e, w3) \<Rightarrow>
                              (Inl (''failed to receive header: '' @ e),
                               s\<lparr>net := connMgr_Release env addr w3\<rparr>)
                          | (None, w3) \<Rightarrow>
                              (Inr (NewRelay \<lparr>sid = i, client = True\<rparr> addr),
                               s\<lparr>relays :=
                                    (addr, NewRelay \<lparr>sid = i, client = True\<rparr> addr) # relays s,
                                  wg := Suc (wg s), net := w3\<rparr>))))))"

text \<open>
  The goroutine of a relay leaves its loop when \<open>stream.Recv\<close> fails. With the end of
  the stream or an error that carries a status code it returns at once; with any other
  error it first tells the routing table that the address has failed (the result of
  \<open>OnFailure\<close> is dropped). The deferred function then removes the relay from the
  map, closes it, releases the connection and calls \<open>Done\<close> on the wait group, which
  panics when the counter is already zero.
\<close>

datatype stream_end = StreamClosing | StreamBroken

definition relay_goroutine ::
  "'w session_env \<Rightarrow> parent \<Rightarrow> address \<Rightarrow> relay \<Rightarrow> stream_end \<Rightarrow> 'w session \<Rightarrow>
   'w session res"
where
  "relay_goroutine env p addr r how s =
     (if wg s = 0 then Panic ''sync: negative WaitGroup counter''
      else
        Ret (s\<lparr>relays := map_delete addr (relays s),
               wg := wg s - 1,
               net := connMgr_Release env addr
                 (snd (relay_Close env r
                    (case how of
                       StreamClosing \<Rightarrow> net s
                     | StreamBroken \<Rightarrow> snd (table_OnFailure env (table p) addr (net s)))))\<rparr>))"

text \<open>
  \<open>onFailure\<close>, \<open>sendTo\<close> and \<open>sendPacket\<close> call each other: a relay that fails makes
  the table look for another route and the packet is sent again. \<open>retry\<close> stands for
  that inner call of \<open>sendPacket\<close>.

  \<open>sendPacket\<close> starts one goroutine \<open>sendTo\<close> for each route and waits for all of
  them. Here the goroutines take their turns one whole call after the other, in the
  order of the list of routes; that list is whatever order \<open>Forward\<close> of the
  environment gives, so every order of the calls is covered, but not the interleavings
  of the steps inside two calls. The order in which the errors reach the channel is
  therefore only one of the possible ones.
\<close>

type_synonym 'w retry =
  "parent \<Rightarrow> packet \<Rightarrow> chan \<Rightarrow> 'w session \<Rightarrow> (bool \<times> chan \<times> 'w session) res"

definition onFailure ::
  "'w retry \<Rightarrow> 'w session_env \<Rightarrow> parent \<Rightarrow> address \<Rightarrow> packet \<Rightarrow> chan \<Rightarrow> 'w session \<Rightarrow>
   (chan \<times> 'w session) res"
where
  "onFailure retry env p gateway pkt c s =
     (case table_OnFailure env (table p) gateway (net s) of
        (Some e, w') \<Rightarrow>
          (case chan_send c (''no route to '' @ address_String gateway @ '': '' @ e) of
             Ret c' \<Rightarrow> Ret (c', s\<lparr>net := w'\<rparr>)
           | Stuck \<Rightarrow> Stuck
           | Panic m \<Rightarrow> Panic m)
      | (None, w') \<Rightarrow>
          (case retry p pkt c (s\<lparr>net := w'\<rparr>) of
             Ret (sent, c', s') \<Rightarrow> Ret (c', s')
           | Stuck \<Rightarrow> Stuck
           | Panic m \<Rightarrow> Panic m))"

definition push_ack ::
  "chan \<Rightarrow> string list \<Rightarrow> 'w session \<Rightarrow> (chan \<times> 'w session) res"
where
  "push_ack c errors s =
     (case chan_send_all c errors of
        Ret c' \<Rightarrow> Ret (c', s)
      | Stuck \<Rightarrow> Stuck
      | Panic m \<Rightarrow> Panic m)"

definition sendTo ::
  "'w retry \<Rightarrow> 'w session_env \<Rightarrow> parent \<Rightarrow> address option \<Rightarrow> packet \<Rightarrow> chan \<Rightarrow> 'w session \<Rightarrow>
   (chan \<times> 'w session) res"
where
  "sendTo retry env p to pkt c s =
     (case to of
        None \<Rightarrow>
          (case relay_Send env (relay p) pkt (net s) of
             (Inl e, w') \<Rightarrow>
               (case chan_send c
                       (''session '' @ address_String (me s) @ '' is closing: ''
                          @ status_Code env e) of
                  Ret c' \<Rightarrow> Ret (c', s\<lparr>net := w'\<rparr>)
                | Stuck \<Rightarrow> Stuck
                | Panic m \<Rightarrow> Panic m)
           | (Inr errors, w') \<Rightarrow> push_ack c errors (s\<lparr>net := w'\<rparr>))
      | Some a \<Rightarrow>
          (case setupRelay env p a s of
             (Inl e, s1) \<Rightarrow> onFailure retry env p a pkt c s1
           | (Inr r, s1) \<Rightarrow>
               (case relay_Send env r pkt (net s1) of
                  (Inl e, w') \<Rightarrow>
                    onFailure retry env p (GetDistantAddress r) pkt c (s1\<lparr>net := w'\<rparr>)
                | (Inr errors, w') \<Rightarrow> push_ack c errors (s1\<lparr>net := w'\<rparr>))))"

fun sendTo_all ::
  "'w retry \<Rightarrow> 'w session_env \<Rightarrow> parent \<Rightarrow> (address option \<times> packet) list \<Rightarrow> chan \<Rightarrow>
   'w session \<Rightarrow> (chan \<times> 'w session) res"
where
  "sendTo_all retry env p [] c s = Ret (c, s)"
| "sendTo_all retry env p ((to, pkt) # routes) c s =
     (case sendTo retry env p to pkt c s of
        Ret (c', s') \<Rightarrow> sendTo_all retry env p routes c' s'
      | Stuck \<Rightarrow> Stuck
      | Panic m \<Rightarrow> Panic m)"

text \<open>The first step of \<open>sendPacket\<close>: the slice for the local address goes to the queue.\<close>

definition deliver_local ::
  "'w session_env \<Rightarrow> packet \<Rightarrow> chan \<Rightarrow> 'w session \<Rightarrow> (chan \<times> 'w session) res"
where
  "deliver_local env pkt c s =
     (case pkt_Slice env pkt (me s) of
        None \<Rightarrow> Ret (c, s)
      | Some (mine, rest) \<Rightarrow>
          (case queue_Push env mine (net s) of
             (None, w') \<Rightarrow> Ret (c, s\<lparr>net := w'\<rparr>)
           | (Some e, w') \<Rightarrow>
               (case chan_send c (address_String (me s) @ '' dropped the packet: '' @ e) of
                  Ret c' \<Rightarrow> Ret (c', s\<lparr>net := w'\<rparr>)
                | Stuck \<Rightarrow> Stuck
                | Panic m \<Rightarrow> Panic m)))"

definition sliced :: "'w session_env \<Rightarrow> packet \<Rightarrow> address \<Rightarrow> bool" where
  "sliced env pkt a = (pkt_Slice env pkt a \<noteq> None)"

definition after_Slice :: "'w session_env \<Rightarrow> packet \<Rightarrow> address \<Rightarrow> packet" where
  "after_Slice env pkt a =
     (case pkt_Slice env pkt a of None \<Rightarrow> pkt | Some (mine, rest) \<Rightarrow> rest)"

definition void_error :: "address \<times> string \<Rightarrow> string" where
  "void_error v = ''no route to '' @ address_String (fst v) @ '': '' @ snd v"

definition sendPacket_body ::
  "'w retry \<Rightarrow> 'w session_env \<Rightarrow> parent \<Rightarrow> packet \<Rightarrow> chan \<Rightarrow> 'w session \<Rightarrow>
   (bool \<times> chan \<times> 'w session) res"
where
  "sendPacket_body retry env p pkt c s =
     (case deliver_local env pkt c s of
        Stuck \<Rightarrow> Stuck
      | Panic m \<Rightarrow> Panic m
      | Ret (c1, s1) \<Rightarrow>
          (case table_Forward env (table p) (after_Slice env pkt (me s)) (net s1) of
             (routes, voids) \<Rightarrow>
               (case chan_send_all c1 (map void_error voids) of
                  Stuck \<Rightarrow> Stuck
                | Panic m \<Rightarrow> Panic m
                | Ret c2 \<Rightarrow>
                    if routes = [] \<and> voids = [] then Ret (sliced env pkt (me s), c2, s1)
                    else
                      (case sendTo_all retry env p routes c2 s1 of
                         Stuck \<Rightarrow> Stuck
                       | Panic m \<Rightarrow> Panic m
                       | Ret (c3, s3) \<Rightarrow> Ret (True, c3, s3)))))"

text \<open>
  \<open>sendPacket\<close> with the depth of the retries it may nest: with depth \<open>0\<close> it has not
  returned.
\<close>

primrec sendPacket :: "nat \<Rightarrow> 'w session_env \<Rightarrow> 'w retry" where
  "sendPacket 0 env = (\<lambda>p pkt c s. Stuck)"
| "sendPacket (Suc n) env = sendPacket_body (sendPacket n env) env"

text \<open>
  \<open>Send\<close>. The loop over the wrapped addresses writes into the slice of the caller
  before the goroutine starts; the goroutine serialises the message, tries the parents
  and, when it returns, closes the channel (the deferred \<open>close(errs)\<close>). The channel
  has one slot for each address and one more; \<open>drained\<close> says whether the caller
  receives from it while the goroutine runs.
\<close>

fun send_parents ::
  "'w retry \<Rightarrow> 'w session_env \<Rightarrow> string \<Rightarrow> address list \<Rightarrow> (address \<times> parent) list \<Rightarrow>
   chan \<Rightarrow> 'w session \<Rightarrow> (bool \<times> chan \<times> 'w session) res"
where
  "send_parents sp env data addrs [] c s = Ret (False, c, s)"
| "send_parents sp env data addrs ((k, p) # ps) c s =
     (case sp p (table_Make env (table p) (me s) addrs data (net s)) c s of
        Ret (sent, c', s') \<Rightarrow>
          if sent then Ret (True, c', s') else send_parents sp env data addrs ps c' s'
      | Stuck \<Rightarrow> Stuck
      | Panic m \<Rightarrow> Panic m)"

definition Send_goroutine ::
  "nat \<Rightarrow> 'w session_env \<Rightarrow> message \<Rightarrow> address list \<Rightarrow> chan \<Rightarrow> 'w session \<Rightarrow>
   (chan \<times> 'w session) res"
where
  "Send_goroutine n env msg addrs c s =
     (case msg_Serialize env msg of
        Inl e \<Rightarrow>
          (case chan_send c (''failed to serialize msg: '' @ e) of
             Ret c' \<Rightarrow> Ret (c', s)
           | Stuck \<Rightarrow> Stuck
           | Panic m \<Rightarrow> Panic m)
      | Inr data \<Rightarrow>
          (case send_parents (sendPacket n env) env data addrs (parents s) c s of
             Ret (sent, c', s') \<Rightarrow>
               if sent then Ret (c', s')
               else
                 (case chan_send c' ''packet ignored'' of
                    Ret c'' \<Rightarrow> Ret (c'', s')
                  | Stuck \<Rightarrow> Stuck
                  | Panic m \<Rightarrow> Panic m)
           | Stuck \<Rightarrow> Stuck
           | Panic m \<Rightarrow> Panic m))"

text \<open>
  The result of \<open>Send\<close>: the slice of the caller after the call, and the channel and
  the session once the goroutine is over.
\<close>

definition Send ::
  "nat \<Rightarrow> 'w session_env \<Rightarrow> bool \<Rightarrow> message \<Rightarrow> address list \<Rightarrow> 'w session \<Rightarrow>
   address list \<times> (chan \<times> 'w session) res"
where
  "Send n env drained msg addrs s =
     (map Unwrap addrs,
      (case Send_goroutine n env msg (map Unwrap addrs)
              (make_chan (length addrs + 1) drained) s of
         Ret (c, s') \<Rightarrow>
           (case chan_close c of
              Ret c' \<Rightarrow> Ret (c', s')
            | Stuck \<Rightarrow> Stuck
            | Panic m \<Rightarrow> Panic m)
       | Stuck \<Rightarrow> Stuck
       | Panic m \<Rightarrow> Panic m))"

text \<open>
  \<open>RecvPacket\<close>. Each parent gets a channel of its own, with one slot for each
  destination of the packet; nobody receives from it before \<open>sendPacket\<close> has returned.
  The result is the list \<open>Errors\<close> of the acknowledgement, or the error.
\<close>

fun recv_parents ::
  "'w retry \<Rightarrow> packet \<Rightarrow> nat \<Rightarrow> (address \<times> parent) list \<Rightarrow> 'w session \<Rightarrow>
   ((string + string list) \<times> 'w session) res"
where
  "recv_parents sp pkt np [] s =
     Ret (Inl (''packet is dropped (tried '' @ show_nat np @ '' parent-s)''), s)"
| "recv_parents sp pkt np ((k, p) # ps) s =
     (case sp p pkt (make_chan (length (dest pkt)) False) s of
        Ret (sent, c, s') \<Rightarrow>
          (case chan_close c of
             Ret c' \<Rightarrow>
               if sent then Ret (Inr (pushed (history c')), s')
               else recv_parents sp pkt np ps s'
           | Stuck \<Rightarrow> Stuck
           | Panic m \<Rightarrow> Panic m)
      | Stuck \<Rightarrow> Stuck
      | Panic m \<Rightarrow> Panic m)"

definition RecvPacket ::
  "nat \<Rightarrow> 'w session_env \<Rightarrow> address \<Rightarrow> string \<Rightarrow> 'w session \<Rightarrow>
   ((string + string list) \<times> 'w session) res"
where
  "RecvPacket n env from wire s =
     (case pktFac_PacketOf env wire of
        Inl e \<Rightarrow> Ret (Inl (''packet malformed: '' @ e), s)
      | Inr pkt \<Rightarrow> recv_parents (sendPacket n env) pkt (length (parents s)) (parents s) s)"

text \<open>\<open>Recv\<close>: the case of the \<open>select\<close> that fired decides the result.\<close>

datatype select_case = CtxDone string | FromErrs "string option" | FromQueue packet

fun Recv :: "'w session_env \<Rightarrow> select_case \<Rightarrow> string + address \<times> message" where
  "Recv env (CtxDone e) = Inl e"
| "Recv env (FromErrs (Some e)) = Inl (''stream closed unexpectedly: '' @ e)"
| "Recv env (FromErrs None) = Inl ''EOF''"
| "Recv env (FromQueue pkt) =
     (case msgFac_Deserialize env (payload pkt) of
        Inl e \<Rightarrow> Inl (''message: '' @ e)
      | Inr msg \<Rightarrow> Inr (WrapAddr (source pkt), msg))"

section \<open>A small network on which the definitions run\<close>

text \<open>
  A world with three peers, of which some cannot be dialled. The routing table routes
  every destination directly, and voids the ones that have been reported as failed;
  every packet pushed on the queue is kept, and the half-closes of streams are counted.
\<close>

record sim =
  delivered :: "packet list"
  unreachable :: "address list"
  avoided :: "address list"
  half_closed :: nat

definition sim_peers :: "address list" where
  "sim_peers = [Addr ''A'', Addr ''B'', Addr ''C'']"

definition sim_Slice :: "packet \<Rightarrow> address \<Rightarrow> (packet \<times> packet) option" where
  "sim_Slice pkt a =
     (if a \<in> set (dest pkt)
      then Some (pkt\<lparr>dest := [a]\<rparr>, pkt\<lparr>dest := filter (\<lambda>d. d \<noteq> a) (dest pkt)\<rparr>)
      else None)"

definition sim_Forward ::
  "packet \<Rightarrow> sim \<Rightarrow> (address option \<times> packet) list \<times> (address \<times> string) list"
where
  "sim_Forward pkt w =
     (map (\<lambda>d. (Some d, pkt\<lparr>dest := [d]\<rparr>)) (filter (\<lambda>d. d \<notin> set (avoided w)) (dest pkt)),
      map (\<lambda>d. (d, ''address is unreachable'')) (filter (\<lambda>d. d \<in> set (avoided w)) (dest pkt)))"

definition sim_OnFailure :: "address \<Rightarrow> sim \<Rightarrow> string option \<times> sim" where
  "sim_OnFailure a w =
     (if a \<in> set sim_peers \<and> a \<notin> set (avoided w)
      then (None, w\<lparr>avoided := a # avoided w\<rparr>)
      else (Some ''address is unreachable'', w))"

definition sim_env :: "sim session_env" where
  "sim_env =
     \<lparr>msg_Serialize =
        (\<lambda>m. if m = OtherMessage then Inl ''unsupported message'' else Inr ''data''),
      pktFac_PacketOf =
        (\<lambda>b. if b = [] then Inl ''empty packet''
              else Inr \<lparr>source = Addr ''A'', dest = [Addr b], payload = ''data''\<rparr>),
      msgFac_Deserialize = (\<lambda>b. if b = [] then Inl ''empty message'' else Inr SyncAck),
      pkt_Slice = sim_Slice,
      pkt_Serialize = (\<lambda>p. Inr (payload p)),
      table_Make = (\<lambda>t src dsts data w. \<lparr>source = src, dest = dsts, payload = data\<rparr>),
      table_Forward = (\<lambda>t. sim_Forward),
      table_PrepareHandshakeFor = (\<lambda>t a w. Inr ''handshake''),
      table_OnFailure = (\<lambda>t. sim_OnFailure),
      queue_Push = (\<lambda>p w. (None, w\<lparr>delivered := delivered w @ [p]\<rparr>)),
      connMgr_Acquire =
        (\<lambda>a w. if a \<in> set (unreachable w) then (Some ''connection refused'', w)
                else (None, w)),
      connMgr_Release = (\<lambda>a w. w),
      client_Stream = (\<lambda>a hs w. (Inr (address_String a), w)),
      client_Forward = (\<lambda>a data w. (Inr [], w)),
      stream_Header = (\<lambda>st w. (None, w)),
      stream_Send = (\<lambda>st data w. (None, w)),
      stream_CloseSend = (\<lambda>st w. (None, w\<lparr>half_closed := Suc (half_closed w)\<rparr>)),
      status_Code = (\<lambda>e. ''Unavailable'')\<rparr>"

definition sim0 :: sim where
  "sim0 = \<lparr>delivered = [], unreachable = [Addr ''B''], avoided = [], half_closed = 0\<rparr>"

definition sim_parent :: parent where
  "sim_parent =
     \<lparr>relay = streamRelay (Addr ''O'') \<lparr>sid = ''up'', client = False\<rparr>, table = 0\<rparr>"

definition sim_session :: "sim session" where
  "sim_session = SetPassive (relay sim_parent) 0 (NewSession (Addr ''A'') sim0)"

text \<open>
  An orchestrator whose announcement reaches every player but \<open>P2\<close>, and whose
  receiver would deliver the acknowledgement of \<open>P1\<close>.
\<close>

definition sim_sync_env :: "nat sync_env" where
  "sim_sync_env =
     \<lparr>rpc_Stream = (\<lambda>w. (None, w)),
      sender_Send =
        (\<lambda>m as w. (map (\<lambda>a. Some (''no route to '' @ address_String a))
                       (filter (\<lambda>a. a = Addr ''P2'') as), Suc w)),
      store_Len = (\<lambda>w. 5),
      store_GetByIndex = (\<lambda>i w. Inr ''block'')\<rparr>"

definition sim_handler_env :: "nat handler_env" where
  "sim_handler_env =
     \<lparr>blocks_Len = (\<lambda>w. of_nat w),
      pbftsm_CatchUp = (\<lambda>l w. (None, Suc w)),
      out_Send = (\<lambda>m a w. (None, w))\<rparr>"

subsection \<open>Notions used to state the properties\<close>

text \<open>
  A channel is ready when a send on it goes through: it is open, and a receiver takes
  the values or a slot is free.
\<close>

definition chan_ready :: "chan \<Rightarrow> bool" where
  "chan_ready c = (\<not> is_closed c \<and> (receiver c \<or> length (history c) < cap c))"

text \<open>The world once \<open>sendPacket\<close> has pushed the local slice of a packet, if any.\<close>

definition local_world :: "'w session_env \<Rightarrow> packet \<Rightarrow> 'w session \<Rightarrow> 'w" where
  "local_world env pkt s =
     (case pkt_Slice env pkt (me s) of
        None \<Rightarrow> net s
      | Some (mine, rest) \<Rightarrow> snd (queue_Push env mine (net s)))"

text \<open>
  \<open>room c k\<close>: the channel takes \<open>k\<close> more sends without making the sender wait, because
  a receiver takes the values or because that many slots are free.
\<close>

definition room :: "chan \<Rightarrow> nat \<Rightarrow> bool" where
  "room c k = (receiver c \<or> length (history c) + k \<le> cap c)"

text \<open>
  \<open>grows c c'\<close>: the channel \<open>c'\<close> is \<open>c\<close> after some sends, and nothing else; and
  when nobody receives, it holds no more values than it has slots if \<open>c\<close> did.
\<close>

definition grows :: "chan \<Rightarrow> chan \<Rightarrow> bool" where
  "grows c c' =
     ((\<exists>es. c' = c\<lparr>history := history c @ map Pushed es\<rparr>) \<and> (room c 0 \<longrightarrow> room c' 0))"

text \<open>
  \<open>res_ok P r\<close>: the call \<open>r\<close> has not panicked, and its result, if it has returned,
  satisfies \<open>P\<close>. \<open>sends_only retry\<close>: on an open channel, \<open>retry\<close> does not panic and
  does nothing to the channel but send on it.
\<close>

definition res_ok :: "('a \<Rightarrow> bool) \<Rightarrow> 'a res \<Rightarrow> bool" where
  "res_ok P r = (case r of Ret x \<Rightarrow> P x | Stuck \<Rightarrow> True | Panic m \<Rightarrow> False)"

definition sends_only :: "'w retry \<Rightarrow> bool" where
  "sends_only retry =
     (\<forall>p pkt c s. \<not> is_closed c \<longrightarrow> res_ok (\<lambda>r. grows c (fst (snd r))) (retry p pkt c s))"

text \<open>
  The retries of a send come to an end when the routing table converges: a measure of
  the world goes strictly down each time \<open>OnFailure\<close> finds another route, and no other
  call of the session makes it go up.
\<close>

definition settles :: "'w session_env \<Rightarrow> ('w \<Rightarrow> nat) \<Rightarrow> bool" where
  "settles env m =
     (\<forall>t a w p hs d st.
        (fst (table_OnFailure env t a w) = None \<longrightarrow> m (snd (table_OnFailure env t a w)) < m w)
      \<and> m (snd (table_OnFailure env t a w)) \<le> m w
      \<and> m (snd (queue_Push env p w)) \<le> m w
      \<and> m (snd (connMgr_Acquire env a w)) \<le> m w
      \<and> m (connMgr_Release env a w) \<le> m w
      \<and> m (snd (client_Stream env a hs w)) \<le> m w
      \<and> m (snd (client_Forward env a d w)) \<le> m w
      \<and> m (snd (stream_Header env st w)) \<le> m w
      \<and> m (snd (stream_Send env st d w)) \<le> m w)"

text \<open>
  What the session expects of its collaborators as to the number of destinations:
  \<open>Slice\<close> takes at least one destination out of the packet; the routes and the voids
  of \<open>Forward\<close> hold together no more destinations than the packet, and no route is
  without destination; a peer answers a packet with at most one error for each of its
  destinations; \<open>Make\<close> gives the packet no more destinations than it is given
  addresses.
\<close>

definition well_routed :: "'w session_env \<Rightarrow> bool" where
  "well_routed env =
     (\<forall>pkt a t w gw data addrs src.
        (\<forall>mine rest. pkt_Slice env pkt a = Some (mine, rest) \<longrightarrow>
           length (dest rest) < length (dest pkt))
      \<and> sum_list (map (\<lambda>r. length (dest (snd r))) (fst (table_Forward env t pkt w)))
            + length (snd (table_Forward env t pkt w)) \<le> length (dest pkt)
      \<and> (\<forall>r \<in> set (fst (table_Forward env t pkt w)). dest (snd r) \<noteq> [])
      \<and> (pkt_Serialize env pkt = Inr data \<longrightarrow>
           (\<forall>errors w'. client_Forward env gw data w = (Inr errors, w') \<longrightarrow>
              length errors \<le> length (dest pkt)))
      \<and> length (dest (table_Make env t src addrs data w)) \<le> length addrs)"

text \<open>
  \<open>returns_below env m n retry\<close>: in a world of measure below \<open>n\<close>, on an open channel
  with room for one error for each destination of the packet and \<open>k\<close> more, \<open>retry\<close>
  returns, has not raised the measure, and leaves room for \<open>k\<close> errors.
\<close>

definition returns_below :: "'w session_env \<Rightarrow> ('w \<Rightarrow> nat) \<Rightarrow> nat \<Rightarrow> 'w retry \<Rightarrow> bool" where
  "returns_below env m n retry =
     (\<forall>p pkt c s k.
        \<not> is_closed c \<and> (receiver c \<or> well_routed env)
          \<and> room c (length (dest pkt) + k) \<and> m (net s) < n \<longrightarrow>
        (\<exists>b c' s'. retry p pkt c s = Ret (b, c', s') \<and> m (net s') \<le> m (net s) \<and> room c' k))"

definition sim_measure :: "sim \<Rightarrow> nat" where
  "sim_measure w = length (filter (\<lambda>a. a \<notin> set (avoided w)) sim_peers)"

section \<open>Properties of the block synchronisation\<close>

lemma Stream_latest_cases:
  "latest (snd (Stream env rs h)) = latest h \<or> latest h < latest (snd (Stream env rs h))"
  by (auto simp: Stream_def Let_def split: prod.splits outcome.splits sum.splits option.splits)

lemma Stream_latest_mono: "latest h \<le> latest (snd (Stream env rs h))"
  using Stream_latest_cases [of env rs h] by auto

lemma serve_mono: "latest h \<le> latest (serve env rss h)"
proof (induction rss arbitrary: h)
  case Nil
  show ?case by simp
next
  case (Cons rs rss)
  have "latest h \<le> latest (snd (Stream env rs h))"
    by (rule Stream_latest_mono)
  also have "\<dots> \<le> latest (serve env rss (snd (Stream env rs h)))"
    by (rule Cons.IH)
  finally show ?case by simp
qed

lemma serve_append: "serve env (xs @ ys) h = serve env ys (serve env xs h)"
  by (induction xs arbitrary: h) simp_all

text \<open>
  C8. The counter \<open>latest\<close> never goes down: whatever streams the handler has served
  and whatever streams it serves afterwards, \<open>GetLatest\<close> after the later ones is at
  least \<open>GetLatest\<close> before them. Each stream call leaves the counter as it is or
  stores an announced index that is strictly greater.
\<close>

theorem GetLatest_monotone:
  "GetLatest (serve env rss h) \<le> GetLatest (serve env (rss @ later) h)
   \<and> (GetLatest (snd (Stream env rs h)) = GetLatest h
      \<or> GetLatest h < GetLatest (snd (Stream env rs h)))"
  unfolding GetLatest_def serve_append
  using serve_mono [of "serve env rss h" env later] Stream_latest_cases [of env rs h]
  by simp

text \<open>
  C8, on a handler that holds three blocks: it catches up to the announced index 5, and
  a later announcement of 4 leaves the counter at 5.
\<close>

theorem GetLatest_monotone_witness:
  "GetLatest (serve sim_handler_env
       [ [RecvMsg (Addr ''O'') (SyncMessage 5), RecvMsg (Addr ''O'') (SyncReply ''b3''),
         RecvMsg (Addr ''O'') (SyncReply ''b4'')] ] \<lparr>latest = 3, world = 3\<rparr>) = 5
   \<and> GetLatest (serve sim_handler_env
       ([ [RecvMsg (Addr ''O'') (SyncMessage 5), RecvMsg (Addr ''O'') (SyncReply ''b3''),
          RecvMsg (Addr ''O'') (SyncReply ''b4'')] ]
        @ [ [RecvMsg (Addr ''O'') (SyncMessage 4)] ]) \<lparr>latest = 3, world = 3\<rparr>) = 5"
  using GetLatest_monotone [of sim_handler_env
      "[ [RecvMsg (Addr ''O'') (SyncMessage 5), RecvMsg (Addr ''O'') (SyncReply ''b3''),
         RecvMsg (Addr ''O'') (SyncReply ''b4'')] ]" "\<lparr>latest = 3, world = 3\<rparr>"
      "[ [RecvMsg (Addr ''O'') (SyncMessage 4)] ]"]
  by (simp add: GetLatest_def Stream_def sim_handler_env_def ack_def)

lemma first_error_mem:
  "Some e \<in> set es \<Longrightarrow> \<exists>e'. first_error es = Some e' \<and> Some e' \<in> set es"
proof (induction es rule: first_error.induct)
  case 1
  then show ?case by simp
next
  case (2 es)
  then show ?case by auto
next
  case (3 e' es)
  then show ?case by simp
qed

text \<open>
  C10. When the channel of the announcement yields an error for any destination, the
  routine returns "announcement failed" at once: it has made no receive (the receiver is
  left as it was), no event has been sent, and the channel returned by \<open>Sync\<close> is closed
  with nothing published. One unreachable player ends the whole synchronisation.
\<close>

theorem announcement_error_aborts:
  assumes "rpc_Stream env w = (None, w1)"
    and "sender_Send env (SyncMessage (store_Len env w1)) players w1 = (es, w2)"
    and "Some e \<in> set es"
  shows "\<exists>e'. Some e' \<in> set es
      \<and> routine env players rs w
          = (Returned (Some (''announcement failed: '' @ e')), [], rs, w2)
      \<and> Sync env players rs w = \<lparr>published = [], ch_closed = True\<rparr>"
proof -
  obtain e' where e': "first_error es = Some e'" "Some e' \<in> set es"
    using first_error_mem [OF assms(3)] by blast
  have r: "routine env players rs w
      = (Returned (Some (''announcement failed: '' @ e')), [], rs, w2)"
    using assms(1,2) e'(1) by (simp add: routine_def)
  then have "Sync env players rs w = \<lparr>published = [], ch_closed = True\<rparr>"
    by (simp add: Sync_def)
  with r e'(2) show ?thesis by blast
qed

text \<open>
  C10, on the small network: \<open>P2\<close> has no route, \<open>P1\<close> would acknowledge; the
  acknowledgement is never received and no event is published.
\<close>

theorem announcement_error_aborts_witness:
  "Sync sim_sync_env [Addr ''P1'', Addr ''P2''] [RecvMsg (WrapAddr (Addr ''P1'')) SyncAck] 0
     = \<lparr>published = [], ch_closed = True\<rparr>
   \<and> routine sim_sync_env [Addr ''P1'', Addr ''P2'']
        [RecvMsg (WrapAddr (Addr ''P1'')) SyncAck] 0
     = (Returned (Some ''announcement failed: no route to P2''), [],
        [RecvMsg (WrapAddr (Addr ''P1'')) SyncAck], 1)"
  using announcement_error_aborts [of sim_sync_env 0 0 "[Addr ''P1'', Addr ''P2'']"
      "[Some ''no route to P2'']" 1 "''no route to P2''"
      "[RecvMsg (WrapAddr (Addr ''P1'')) SyncAck]"]
  by (simp add: sim_sync_env_def)

section \<open>Properties of the session and of the relays\<close>

lemmas sim_defs = sim_env_def sim_Slice_def sim_Forward_def sim_OnFailure_def sim_peers_def
  sim0_def sim_parent_def sim_session_def SetPassive_def NewSession_def make_chan_def

lemmas run_defs = Send_def Send_goroutine_def sendPacket_body_def deliver_local_def
  after_Slice_def sliced_def void_error_def sendTo_def setupRelay_def onFailure_def push_ack_def
  chan_send_def chan_close_def is_closed_def NewRelay_def unicastRelay_Send_def
  streamRelay_Send_def local_world_def chan_ready_def RecvPacket_def

text \<open>
  C1, as stated, fails: \<open>Close\<close> is not idempotent. On a new session the first
  \<open>Close\<close> returns with \<open>errs\<close> closed; the second one panics at \<open>close(s.errs)\<close>.
\<close>

theorem Close_twice_panics:
  "Close (NewSession (Addr ''A'') sim0)
     = Ret ((NewSession (Addr ''A'') sim0)
              \<lparr>errs := \<lparr>history = [Closed], cap = 1, receiver = False\<rparr>\<rparr>)
   \<and> Close ((NewSession (Addr ''A'') sim0)
              \<lparr>errs := \<lparr>history = [Closed], cap = 1, receiver = False\<rparr>\<rparr>)
     = Panic ''close of closed channel''"
  by (simp add: Close_def Wait_def chan_close_def is_closed_def NewSession_def make_chan_def)

text \<open>
  C1, amended. On a session whose channel \<open>errs\<close> is open and whose wait group is
  empty, \<open>Close\<close> returns; it has closed \<open>errs\<close> and changed nothing else. A second
  \<open>Close\<close> on the session it leaves does not return: it panics with "close of closed
  channel".
\<close>

theorem Close_first_then_panics:
  assumes "\<not> is_closed (errs s)" and "wg s = 0"
  shows "\<exists>s1. Close s = Ret s1
     \<and> s1 = s\<lparr>errs := (errs s)\<lparr>history := history (errs s) @ [Closed]\<rparr>\<rparr>
     \<and> is_closed (errs s1)
     \<and> Close s1 = Panic ''close of closed channel''"
  using assms by (simp add: Close_def Wait_def chan_close_def is_closed_def)

text \<open>C1, amended, on a session of the small network with one parent.\<close>

theorem Close_first_then_panics_witness:
  "\<not> is_closed (errs sim_session) \<and> wg sim_session = 0
   \<and> (\<exists>s1. Close sim_session = Ret s1 \<and> is_closed (errs s1)
         \<and> Close s1 = Panic ''close of closed channel'')"
proof -
  have h: "\<not> is_closed (errs sim_session)" "wg sim_session = 0"
    by (simp_all add: sim_session_def SetPassive_def NewSession_def make_chan_def
        is_closed_def)
  from Close_first_then_panics [OF h] h show ?thesis by blast
qed

text \<open>
  C2, as stated, fails: the two variants are the other way round. On a client stream
  of the small network, \<open>Close\<close> of the stream relay half-closes nothing and \<open>Close\<close>
  of the unicast relay half-closes the stream.
\<close>

theorem relay_Close_counterexample:
  "half_closed (snd (relay_Close sim_env
       (streamRelay (Addr ''B'') \<lparr>sid = ''b'', client = True\<rparr>) sim0)) = 0
   \<and> half_closed (snd (relay_Close sim_env
       (unicastRelay (Addr ''B'') \<lparr>sid = ''b'', client = True\<rparr>) sim0)) = 1"
  by (simp add: streamRelay_Close_def unicastRelay_Close_def sim_env_def sim0_def)

text \<open>
  C2, amended. \<open>Close\<close> of the stream relay does nothing and returns nil, so calling
  it again changes nothing either. \<open>Close\<close> of the unicast relay calls \<open>CloseSend\<close> on
  its stream when the stream is a client stream, and returns the error of \<open>CloseSend\<close>
  wrapped; on another stream it does nothing. Calling it again calls \<open>CloseSend\<close>
  again.
\<close>

theorem relay_Close_by_variant:
  "relay_Close env (streamRelay gw st) w = (None, w)
   \<and> relay_Close env (streamRelay gw st) (snd (relay_Close env (streamRelay gw st) w))
       = (None, w)
   \<and> (client st \<longrightarrow>
        snd (relay_Close env (unicastRelay gw st) w) = snd (stream_CloseSend env st w)
        \<and> fst (relay_Close env (unicastRelay gw st) w)
            = map_option (\<lambda>e. ''failed to close stream: '' @ e)
                (fst (stream_CloseSend env st w))
        \<and> snd (relay_Close env (unicastRelay gw st)
                 (snd (relay_Close env (unicastRelay gw st) w)))
            = snd (stream_CloseSend env st (snd (stream_CloseSend env st w))))
   \<and> (\<not> client st \<longrightarrow> relay_Close env (unicastRelay gw st) w = (None, w))"
  by (simp add: streamRelay_Close_def unicastRelay_Close_def split: prod.splits option.splits)

text \<open>C2, amended, on a client stream and on a stream that is not one.\<close>

theorem relay_Close_by_variant_witness:
  "client \<lparr>sid = ''b'', client = True\<rparr>
   \<and> relay_Close sim_env (unicastRelay (Addr ''B'') \<lparr>sid = ''b'', client = True\<rparr>) sim0
       = (None, sim0\<lparr>half_closed := 1\<rparr>)
   \<and> \<not> client \<lparr>sid = ''up'', client = False\<rparr>
   \<and> relay_Close sim_env (unicastRelay (Addr ''O'') \<lparr>sid = ''up'', client = False\<rparr>) sim0
       = (None, sim0)
   \<and> relay_Close sim_env (streamRelay (Addr ''B'') \<lparr>sid = ''b'', client = True\<rparr>) sim0
       = (None, sim0)"
  using relay_Close_by_variant [of sim_env "Addr ''B''" "\<lparr>sid = ''b'', client = True\<rparr>" sim0]
    relay_Close_by_variant [of sim_env "Addr ''O''" "\<lparr>sid = ''up'', client = False\<rparr>" sim0]
  by (simp add: sim_env_def sim0_def prod_eq_iff)

subsection \<open>What \<open>sendPacket\<close> does to the channel\<close>

lemma grows_refl: "grows c c"
proof -
  have "c = c\<lparr>history := history c @ map Pushed []\<rparr>" by simp
  then have "\<exists>es. c = c\<lparr>history := history c @ map Pushed es\<rparr>" by blast
  then show ?thesis unfolding grows_def by simp
qed

lemma grows_trans:
  assumes "grows c c1" and "grows c1 c2"
  shows "grows c c2"
proof -
  from assms(1) obtain es where 1: "c1 = c\<lparr>history := history c @ map Pushed es\<rparr>"
    unfolding grows_def by blast
  from assms(2) obtain fs where 2: "c2 = c1\<lparr>history := history c1 @ map Pushed fs\<rparr>"
    unfolding grows_def by blast
  from 1 2 have "c2 = c\<lparr>history := history c @ map Pushed (es @ fs)\<rparr>" by simp
  then have "\<exists>gs. c2 = c\<lparr>history := history c @ map Pushed gs\<rparr>" by blast
  moreover from assms have "room c 0 \<longrightarrow> room c2 0"
    unfolding grows_def by blast
  ultimately show ?thesis unfolding grows_def by simp
qed

lemma grows_open: "grows c c' \<Longrightarrow> is_closed c' = is_closed c"
  unfolding grows_def is_closed_def by auto

lemma grows_receiver: "grows c c' \<Longrightarrow> receiver c' = receiver c"
  unfolding grows_def by auto

lemma grows_cap: "grows c c' \<Longrightarrow> cap c' = cap c"
  unfolding grows_def by auto

lemma grows_within: "grows c c' \<Longrightarrow> room c 0 \<Longrightarrow> room c' 0"
  unfolding grows_def by blast

lemma chan_send_grows: "chan_send c e = Ret c' \<Longrightarrow> grows c c'"
proof -
  assume h: "chan_send c e = Ret c'"
  then have 1: "c' = c\<lparr>history := history c @ map Pushed [e]\<rparr>"
    by (simp add: chan_send_def split: if_splits)
  then have "\<exists>es. c' = c\<lparr>history := history c @ map Pushed es\<rparr>" by blast
  moreover from h have "receiver c \<or> length (history c) < cap c"
    by (simp add: chan_send_def split: if_splits)
  with 1 have "room c' 0" by (auto simp: room_def)
  ultimately show ?thesis unfolding grows_def by simp
qed

lemma chan_send_no_panic: "\<not> is_closed c \<Longrightarrow> chan_send c e \<noteq> Panic m"
  by (simp add: chan_send_def)

lemma chan_send_all_grows: "chan_send_all c es = Ret c' \<Longrightarrow> grows c c'"
proof (induction es arbitrary: c)
  case Nil
  then show ?case by (simp add: grows_refl)
next
  case (Cons e es)
  then obtain c1 where 1: "chan_send c e = Ret c1" and 2: "chan_send_all c1 es = Ret c'"
    by (auto split: res.splits)
  from chan_send_grows [OF 1] Cons.IH [OF 2] show ?case by (rule grows_trans)
qed

lemma chan_send_all_no_panic: "\<not> is_closed c \<Longrightarrow> chan_send_all c es \<noteq> Panic m"
proof (induction es arbitrary: c)
  case Nil
  then show ?case by simp
next
  case (Cons e es)
  show ?case
  proof (cases "chan_send c e")
    case (Ret c1)
    from chan_send_grows [OF Ret] have "grows c c1" .
    with Cons.prems have "\<not> is_closed c1"
      using grows_open by blast
    with Cons.IH Ret show ?thesis by simp
  next
    case Stuck
    then show ?thesis by simp
  next
    case (Panic x)
    with chan_send_no_panic [OF Cons.prems] show ?thesis by blast
  qed
qed


lemma res_ok_Ret [simp]: "res_ok P (Ret x) = P x"
  by (simp add: res_ok_def)

lemma res_ok_Stuck [simp]: "res_ok P Stuck"
  by (simp add: res_ok_def)

lemma res_ok_Panic [simp]: "\<not> res_ok P (Panic m)"
  by (simp add: res_ok_def)

lemma chan_send_all_ok: "\<not> is_closed c \<Longrightarrow> res_ok (grows c) (chan_send_all c es)"
  using chan_send_all_grows [of c es] chan_send_all_no_panic [of c es]
  by (cases "chan_send_all c es") auto

lemma deliver_local_ok:
  assumes "\<not> is_closed c"
  shows "res_ok (\<lambda>r. grows c (fst r)) (deliver_local env pkt c s)"
  by (auto simp: deliver_local_def grows_refl res_ok_def chan_send_grows
      chan_send_no_panic [OF assms] split: option.splits prod.splits res.splits)

lemma push_ack_ok:
  assumes "\<not> is_closed c"
  shows "res_ok (\<lambda>r. grows c (fst r)) (push_ack c es s)"
  using chan_send_all_ok [OF assms, of es]
  by (auto simp: push_ack_def res_ok_def split: res.splits)

lemma onFailure_ok:
  assumes "sends_only retry" and "\<not> is_closed c"
  shows "res_ok (\<lambda>r. grows c (fst r)) (onFailure retry env p g pkt c s)"
proof (cases "table_OnFailure env (table p) g (net s)")
  case (Pair r w')
  show ?thesis
  proof (cases r)
    case None
    from assms have "res_ok (\<lambda>r. grows c (fst (snd r))) (retry p pkt c (s\<lparr>net := w'\<rparr>))"
      unfolding sends_only_def by blast
    with Pair None show ?thesis
      by (auto simp: onFailure_def res_ok_def split: res.splits)
  next
    case (Some e)
    with Pair show ?thesis
      by (auto simp: onFailure_def res_ok_def chan_send_grows
          chan_send_no_panic [OF assms(2)] split: res.splits)
  qed
qed

lemma sendTo_ok:
  assumes "sends_only retry" and "\<not> is_closed c"
  shows "res_ok (\<lambda>r. grows c (fst r)) (sendTo retry env p to pkt c s)"
proof (cases to)
  case None
  obtain r w' where rs: "relay_Send env (relay p) pkt (net s) = (r, w')"
    by (cases "relay_Send env (relay p) pkt (net s)")
  show ?thesis
  proof (cases r)
    case (Inl e)
    with None rs show ?thesis
      by (auto simp: sendTo_def res_ok_def chan_send_grows
          chan_send_no_panic [OF assms(2)] split: res.splits)
  next
    case (Inr es)
    with None rs push_ack_ok [OF assms(2), of es "s\<lparr>net := w'\<rparr>"] show ?thesis
      by (simp add: sendTo_def)
  qed
next
  case (Some a)
  obtain r s1 where su: "setupRelay env p a s = (r, s1)"
    by (cases "setupRelay env p a s")
  show ?thesis
  proof (cases r)
    case (Inl e)
    with Some su onFailure_ok [OF assms, of env p a pkt s1] show ?thesis
      by (simp add: sendTo_def)
  next
    case (Inr rl)
    obtain r2 w' where rs: "relay_Send env rl pkt (net s1) = (r2, w')"
      by (cases "relay_Send env rl pkt (net s1)")
    show ?thesis
    proof (cases r2)
      case (Inl e)
      with Some su Inr rs
        onFailure_ok [OF assms, of env p "GetDistantAddress rl" pkt "s1\<lparr>net := w'\<rparr>"]
      show ?thesis by (simp add: sendTo_def)
    next
      case (Inr es)
      with Some su \<open>r = Inr rl\<close> rs push_ack_ok [OF assms(2), of es "s1\<lparr>net := w'\<rparr>"]
      show ?thesis by (simp add: sendTo_def)
    qed
  qed
qed

lemma sendTo_all_ok:
  assumes "sends_only retry"
  shows "\<not> is_closed c \<Longrightarrow> res_ok (\<lambda>r. grows c (fst r)) (sendTo_all retry env p routes c s)"
proof (induction routes arbitrary: c s)
  case Nil
  then show ?case by (simp add: grows_refl)
next
  case (Cons r routes)
  obtain to pkt where r: "r = (to, pkt)" by (cases r)
  show ?case
  proof (cases "sendTo retry env p to pkt c s")
    case (Ret x)
    obtain c1 s1 where x: "x = (c1, s1)" by (cases x)
    from sendTo_ok [OF assms Cons.prems, of env p to pkt s] Ret x have g: "grows c c1" by simp
    then have "\<not> is_closed c1" using Cons.prems grows_open by blast
    from Cons.IH [OF this, of s1] g Ret x r show ?thesis
      by (auto simp: res_ok_def split: res.splits intro: grows_trans)
  next
    case Stuck
    with r show ?thesis by simp
  next
    case (Panic x)
    with sendTo_ok [OF assms Cons.prems, of env p to pkt s] show ?thesis by simp
  qed
qed

lemma sendPacket_body_ok:
  assumes "sends_only retry" and o: "\<not> is_closed c"
  shows "res_ok (\<lambda>r. grows c (fst (snd r))) (sendPacket_body retry env p pkt c s)"
proof (cases "deliver_local env pkt c s")
  case (Ret x)
  obtain c1 s1 where x: "x = (c1, s1)" by (cases x)
  from deliver_local_ok [OF o, of env pkt s] Ret x have g1: "grows c c1" by simp
  then have o1: "\<not> is_closed c1" using o grows_open by blast
  obtain routes voids where
    f: "table_Forward env (table p) (after_Slice env pkt (me s)) (net s1) = (routes, voids)"
    by (cases "table_Forward env (table p) (after_Slice env pkt (me s)) (net s1)")
  show ?thesis
  proof (cases "chan_send_all c1 (map void_error voids)")
    case (Ret c2)
    from chan_send_all_grows [OF Ret] have g2: "grows c1 c2" .
    then have o2: "\<not> is_closed c2" using o1 grows_open by blast
    from g1 g2 have g12: "grows c c2" by (rule grows_trans)
    from sendTo_all_ok [OF assms(1) o2, of env p routes s1] g12
      \<open>deliver_local env pkt c s = Ret x\<close> x f Ret show ?thesis
      by (auto simp: sendPacket_body_def res_ok_def split: res.splits intro: grows_trans)
  next
    case Stuck
    with \<open>deliver_local env pkt c s = Ret x\<close> x f show ?thesis
      by (simp add: sendPacket_body_def)
  next
    case (Panic y)
    with chan_send_all_no_panic [OF o1] show ?thesis by blast
  qed
next
  case Stuck
  then show ?thesis by (simp add: sendPacket_body_def)
next
  case (Panic x)
  with deliver_local_ok [OF o, of env pkt s] show ?thesis by simp
qed

lemma sendPacket_sends_only: "sends_only (sendPacket n env)"
proof (induction n)
  case 0
  show ?case by (simp add: sends_only_def)
next
  case (Suc n)
  show ?case
    unfolding sends_only_def
    using sendPacket_body_ok [OF Suc] by simp
qed

lemma sendPacket_ok:
  assumes "\<not> is_closed c"
  shows "res_ok (\<lambda>r. grows c (fst (snd r))) (sendPacket n env p pkt c s)"
  using sendPacket_sends_only [of n env] assms
  unfolding sends_only_def by blast

lemma sendPacket_grows:
  assumes "\<not> is_closed c" and "sendPacket n env p pkt c s = Ret (b, c', s')"
  shows "grows c c'"
  using sendPacket_ok [OF assms(1), of n env p pkt s] assms(2) by simp


subsection \<open>When \<open>sendPacket\<close> refuses a packet, and local delivery\<close>

lemma sendPacket_refuses:
  assumes "sendPacket n env p pkt c s = Ret (False, c', s')"
  shows "c' = c \<and> s' = s \<and> pkt_Slice env pkt (me s) = None
     \<and> table_Forward env (table p) pkt (net s) = ([], [])"
proof (cases n)
  case 0
  with assms show ?thesis by simp
next
  case (Suc k)
  with assms have b: "sendPacket_body (sendPacket k env) env p pkt c s = Ret (False, c', s')"
    by simp
  show ?thesis
  proof (cases "pkt_Slice env pkt (me s)")
    case None
    with b show ?thesis
      by (auto simp: sendPacket_body_def deliver_local_def after_Slice_def sliced_def
          split: prod.splits res.splits if_splits)
  next
    case (Some a)
    with b show ?thesis
      by (auto simp: sendPacket_body_def deliver_local_def after_Slice_def sliced_def
          split: prod.splits res.splits if_splits option.splits)
  qed
qed

lemma deliver_local_ready:
  assumes "chan_ready c"
  shows "\<exists>c1. deliver_local env pkt c s = Ret (c1, s\<lparr>net := local_world env pkt s\<rparr>) \<and> grows c c1"
proof (cases "pkt_Slice env pkt (me s)")
  case None
  with grows_refl [of c] show ?thesis by (simp add: deliver_local_def local_world_def)
next
  case (Some a)
  obtain mine rest where a: "a = (mine, rest)" by (cases a)
  obtain r w' where q: "queue_Push env mine (net s) = (r, w')"
    by (cases "queue_Push env mine (net s)")
  show ?thesis
  proof (cases r)
    case None
    with grows_refl [of c] Some a q show ?thesis
      by (simp add: deliver_local_def local_world_def)
  next
    case e: (Some e)
    let ?t = "address_String (me s) @ '' dropped the packet: '' @ e"
    from assms have 1: "chan_send c ?t = Ret (c\<lparr>history := history c @ [Pushed ?t]\<rparr>)"
      by (simp add: chan_send_def chan_ready_def)
    from chan_send_grows [OF 1] 1 e Some a q show ?thesis
      by (simp add: deliver_local_def local_world_def)
  qed
qed

lemma deliver_local_world:
  assumes "deliver_local env pkt c s = Ret (c1, s1)"
  shows "s1 = s\<lparr>net := local_world env pkt s\<rparr>"
  using assms
  by (auto simp: deliver_local_def local_world_def split: option.splits prod.splits res.splits)

text \<open>
  C6. When \<open>Forward\<close> gives no route and no void for what is left of the packet,
  \<open>sendPacket\<close> returns true exactly when \<open>Slice\<close> has given a slice for the local
  address, and false when nothing was sliced: this is the result of every call that
  returns, and the call does return when the channel is ready (so that the error of a
  failed push on the queue can be sent).
\<close>

theorem sendPacket_local_only:
  assumes "table_Forward env (table p) (after_Slice env pkt (me s)) (local_world env pkt s)
      = ([], [])"
  shows "(sendPacket n env p pkt c s = Ret (b, c', s') \<longrightarrow>
            b = (pkt_Slice env pkt (me s) \<noteq> None) \<and> s' = s\<lparr>net := local_world env pkt s\<rparr>)
     \<and> (chan_ready c \<longrightarrow>
          (\<exists>c1. sendPacket (Suc n) env p pkt c s
              = Ret (pkt_Slice env pkt (me s) \<noteq> None, c1, s\<lparr>net := local_world env pkt s\<rparr>)))"
proof -
  have body: "sendPacket_body retry env p pkt c s
      = Ret (pkt_Slice env pkt (me s) \<noteq> None, c1, s\<lparr>net := local_world env pkt s\<rparr>)"
    if "deliver_local env pkt c s = Ret (c1, s1)" for retry c1 s1
    using that deliver_local_world [OF that] assms
    by (simp add: sendPacket_body_def sliced_def)
  have 1: "b = (pkt_Slice env pkt (me s) \<noteq> None) \<and> s' = s\<lparr>net := local_world env pkt s\<rparr>"
    if r: "sendPacket n env p pkt c s = Ret (b, c', s')"
  proof (cases n)
    case 0
    with r show ?thesis by simp
  next
    case (Suc k)
    with r have b: "sendPacket_body (sendPacket k env) env p pkt c s = Ret (b, c', s')"
      by simp
    then obtain c1 s1 where "deliver_local env pkt c s = Ret (c1, s1)"
      by (auto simp: sendPacket_body_def split: res.splits)
    from body [OF this, of "sendPacket k env"] b show ?thesis by simp
  qed
  have 2: "\<exists>c1. sendPacket (Suc n) env p pkt c s
      = Ret (pkt_Slice env pkt (me s) \<noteq> None, c1, s\<lparr>net := local_world env pkt s\<rparr>)"
    if "chan_ready c"
  proof -
    from deliver_local_ready [OF that, of env pkt s] obtain c1 where
      "deliver_local env pkt c s = Ret (c1, s\<lparr>net := local_world env pkt s\<rparr>)" by blast
    from body [OF this, of "sendPacket n env"] show ?thesis by simp
  qed
  from 1 2 show ?thesis by blast
qed

text \<open>
  C6, on the small network: a packet for the local address only is delivered and
  accepted; a packet for nobody is refused.
\<close>

theorem sendPacket_local_only_witness:
  "table_Forward sim_env (table sim_parent)
      (after_Slice sim_env \<lparr>source = Addr ''C'', dest = [Addr ''A''], payload = ''hi''\<rparr>
         (me sim_session))
      (local_world sim_env \<lparr>source = Addr ''C'', dest = [Addr ''A''], payload = ''hi''\<rparr>
         sim_session) = ([], [])
   \<and> chan_ready (make_chan 1 False)
   \<and> sendPacket 1 sim_env sim_parent
        \<lparr>source = Addr ''C'', dest = [Addr ''A''], payload = ''hi''\<rparr>
        (make_chan 1 False) sim_session
     = Ret (True, make_chan 1 False,
         sim_session\<lparr>net := sim0\<lparr>delivered :=
            [\<lparr>source = Addr ''C'', dest = [Addr ''A''], payload = ''hi''\<rparr>]\<rparr>\<rparr>)
   \<and> sendPacket 1 sim_env sim_parent \<lparr>source = Addr ''C'', dest = [], payload = ''hi''\<rparr>
        (make_chan 0 True) sim_session
     = Ret (False, make_chan 0 True, sim_session)"
  using sendPacket_local_only [where env = sim_env and p = sim_parent
      and pkt = "\<lparr>source = Addr ''C'', dest = [Addr ''A''], payload = ''hi''\<rparr>"
      and s = sim_session and n = 0 and c = "make_chan 1 False"]
    sendPacket_local_only [where env = sim_env and p = sim_parent
      and pkt = "\<lparr>source = Addr ''C'', dest = [], payload = ''hi''\<rparr>"
      and s = sim_session and n = 0 and c = "make_chan 0 True"]
  by (simp add: sim_defs run_defs)

lemma send_parents_all_refuse:
  assumes "\<forall>kp \<in> set ps. \<exists>c' s'.
      sendPacket n env (snd kp) (table_Make env (table (snd kp)) (me s) addrs data (net s)) c s
        = Ret (False, c', s')"
  shows "send_parents (sendPacket n env) env data addrs ps c s = Ret (False, c, s)"
  using assms
proof (induction ps)
  case Nil
  show ?case by simp
next
  case (Cons kp ps)
  obtain k p where kp: "kp = (k, p)" by (cases kp)
  from Cons.prems kp obtain c' s' where
    r: "sendPacket n env p (table_Make env (table p) (me s) addrs data (net s)) c s = Ret (False, c', s')"
    by auto
  from sendPacket_refuses [OF r] have "c' = c" "s' = s" by simp_all
  with r Cons kp show ?case by simp
qed

text \<open>
  C4. When the message serialises and \<open>sendPacket\<close> returns false for every parent
  (there may be none), \<open>Send\<close> sends one error on the channel, "packet ignored", and
  closes it; the session is as before.
\<close>

theorem Send_packet_ignored:
  assumes "msg_Serialize env msg = Inr data"
    and "\<forall>kp \<in> set (parents s). \<exists>c' s'.
      sendPacket n env (snd kp)
        (table_Make env (table (snd kp)) (me s) (map Unwrap addrs) data (net s))
        (make_chan (length addrs + 1) drained) s = Ret (False, c', s')"
  shows "Send n env drained msg addrs s =
     (map Unwrap addrs,
      Ret (\<lparr>history = [Pushed ''packet ignored'', Closed],
            cap = length addrs + 1, receiver = drained\<rparr>, s))"
  using assms(1) send_parents_all_refuse [OF assms(2)]
  by (simp add: Send_def Send_goroutine_def chan_send_def chan_close_def is_closed_def
      make_chan_def)

text \<open>
  C4, on the small network: a send to nobody, which the only parent refuses, and a send
  on a session without parents.
\<close>

theorem Send_packet_ignored_witness:
  "Send 1 sim_env False SyncAck [] sim_session
     = ([], Ret (\<lparr>history = [Pushed ''packet ignored'', Closed], cap = 1, receiver = False\<rparr>,
                 sim_session))
   \<and> Send 0 sim_env True SyncAck [WrapAddr (Addr ''C'')] (NewSession (Addr ''A'') sim0)
     = ([Addr ''C''],
        Ret (\<lparr>history = [Pushed ''packet ignored'', Closed], cap = 2, receiver = True\<rparr>,
             NewSession (Addr ''A'') sim0))"
proof -
  have z: "msg_Serialize sim_env SyncAck = Inr ''data''"
    by (simp add: sim_env_def)
  have h1: "\<forall>kp \<in> set (parents sim_session). \<exists>c' s'.
      sendPacket 1 sim_env (snd kp)
        (table_Make sim_env (table (snd kp)) (me sim_session) (map Unwrap []) ''data''
           (net sim_session))
        (make_chan (length ([] :: address list) + 1) False) sim_session = Ret (False, c', s')"
    by (simp add: sim_defs run_defs)
  have h2: "\<forall>kp \<in> set (parents (NewSession (Addr ''A'') sim0)). \<exists>c' s'.
      sendPacket 0 sim_env (snd kp)
        (table_Make sim_env (table (snd kp)) (me (NewSession (Addr ''A'') sim0))
           (map Unwrap [WrapAddr (Addr ''C'')]) ''data'' (net (NewSession (Addr ''A'') sim0)))
        (make_chan (length [WrapAddr (Addr ''C'')] + 1) True) (NewSession (Addr ''A'') sim0)
      = Ret (False, c', s')"
    by (simp add: NewSession_def)
  from Send_packet_ignored [OF z h1] Send_packet_ignored [OF z h2] show ?thesis
    by simp
qed

subsection \<open>\<open>sendPacket\<close> returns when the routing table settles and the channel has room\<close>

lemma settles_OnFailure_None:
  "settles env m \<Longrightarrow> table_OnFailure env t a w = (None, w') \<Longrightarrow> m w' < m w"
  unfolding settles_def by (metis fst_conv snd_conv)

lemma settles_OnFailure: "settles env m \<Longrightarrow> m (snd (table_OnFailure env t a w)) \<le> m w"
  unfolding settles_def by blast

lemma settles_Push: "settles env m \<Longrightarrow> m (snd (queue_Push env p w)) \<le> m w"
  unfolding settles_def by blast

lemma settles_Acquire: "settles env m \<Longrightarrow> m (snd (connMgr_Acquire env a w)) \<le> m w"
  unfolding settles_def by blast

lemma settles_Release: "settles env m \<Longrightarrow> m (connMgr_Release env a w) \<le> m w"
  unfolding settles_def by blast

lemma settles_Stream: "settles env m \<Longrightarrow> m (snd (client_Stream env a hs w)) \<le> m w"
  unfolding settles_def by blast

lemma settles_Forward: "settles env m \<Longrightarrow> m (snd (client_Forward env a d w)) \<le> m w"
  unfolding settles_def by blast

lemma settles_Header: "settles env m \<Longrightarrow> m (snd (stream_Header env st w)) \<le> m w"
  unfolding settles_def by blast

lemma settles_Send: "settles env m \<Longrightarrow> m (snd (stream_Send env st d w)) \<le> m w"
  unfolding settles_def by blast

lemma relay_Send_measure:
  assumes "settles env m"
  shows "m (snd (relay_Send env r pkt w)) \<le> m w"
proof (cases r)
  case (unicastRelay gw st)
  show ?thesis
  proof (cases "pkt_Serialize env pkt")
    case (Inl e)
    with unicastRelay show ?thesis by (simp add: unicastRelay_Send_def)
  next
    case (Inr d)
    with unicastRelay settles_Forward [OF assms, of gw d w] show ?thesis
      by (auto simp: unicastRelay_Send_def split: prod.splits sum.splits)
  qed
next
  case (streamRelay gw st)
  show ?thesis
  proof (cases "pkt_Serialize env pkt")
    case (Inl e)
    with streamRelay show ?thesis by (simp add: streamRelay_Send_def)
  next
    case (Inr d)
    with streamRelay settles_Send [OF assms, of st d w] show ?thesis
      by (auto simp: streamRelay_Send_def split: prod.splits option.splits)
  qed
qed

lemma setupRelay_measure:
  assumes "settles env m"
  shows "m (net (snd (setupRelay env p a s))) \<le> m (net s)"
proof (cases "map_of (relays s) a")
  case (Some r)
  then show ?thesis by (simp add: setupRelay_def)
next
  case None
  show ?thesis
  proof (cases "table_PrepareHandshakeFor env (table p) a (net s)")
    case (Inl e)
    with None show ?thesis by (simp add: setupRelay_def)
  next
    case (Inr hs)
    obtain r1 w1 where a1: "connMgr_Acquire env a (net s) = (r1, w1)"
      by (cases "connMgr_Acquire env a (net s)")
    from settles_Acquire [OF assms, of a "net s"] a1 have m1: "m w1 \<le> m (net s)" by simp
    show ?thesis
    proof (cases r1)
      case (Some e)
      with None Inr a1 m1 show ?thesis by (simp add: setupRelay_def)
    next
      case n1: None
      obtain r2 w2 where a2: "client_Stream env a hs w1 = (r2, w2)"
        by (cases "client_Stream env a hs w1")
      from settles_Stream [OF assms, of a hs w1] a2 m1 have m2: "m w2 \<le> m (net s)" by simp
      show ?thesis
      proof (cases r2)
        case (Inl e)
        with None Inr a1 n1 a2 m2 settles_Release [OF assms, of a w2] show ?thesis
          by (simp add: setupRelay_def)
      next
        case i2: (Inr i)
        obtain r3 w3 where a3: "stream_Header env \<lparr>sid = i, client = True\<rparr> w2 = (r3, w3)"
          by (cases "stream_Header env \<lparr>sid = i, client = True\<rparr> w2")
        from settles_Header [OF assms, of "\<lparr>sid = i, client = True\<rparr>" w2] a3 m2
        have m3: "m w3 \<le> m (net s)" by simp
        show ?thesis
        proof (cases r3)
          case (Some e)
          with None Inr a1 n1 a2 i2 a3 m3 settles_Release [OF assms, of a w3] show ?thesis
            by (simp add: setupRelay_def)
        next
          case n3: None
          with None Inr a1 n1 a2 i2 a3 m3 show ?thesis
            by (simp add: setupRelay_def)
        qed
      qed
    qed
  qed
qed

lemma room_le: "room c j \<Longrightarrow> receiver c \<or> i \<le> j \<Longrightarrow> room c i"
  by (auto simp: room_def)

lemma chan_send_room:
  assumes "\<not> is_closed c" and "room c (Suc k)"
  shows "\<exists>c'. chan_send c e = Ret c' \<and> grows c c' \<and> room c' k"
proof -
  from assms have 1: "chan_send c e = Ret (c\<lparr>history := history c @ [Pushed e]\<rparr>)"
    by (auto simp: chan_send_def room_def)
  from assms(2) have "room (c\<lparr>history := history c @ [Pushed e]\<rparr>) k"
    by (auto simp: room_def)
  with 1 chan_send_grows [OF 1] show ?thesis by simp
qed

lemma chan_send_all_room:
  "\<not> is_closed c \<Longrightarrow> room c (length es + k) \<Longrightarrow>
     \<exists>c'. chan_send_all c es = Ret c' \<and> grows c c' \<and> room c' k"
proof (induction es arbitrary: c)
  case Nil
  then show ?case by (simp add: grows_refl)
next
  case (Cons e es)
  from Cons.prems(2) have "room c (Suc (length es + k))" by simp
  from chan_send_room [OF Cons.prems(1) this, of e] obtain c1 where
    1: "chan_send c e = Ret c1" and g: "grows c c1" and r: "room c1 (length es + k)" by blast
  from g Cons.prems(1) have "\<not> is_closed c1" by (simp add: grows_open)
  from Cons.IH [OF this r] obtain c' where
    "chan_send_all c1 es = Ret c'" "grows c1 c'" "room c' k" by blast
  with 1 g show ?case by (auto intro: grows_trans)
qed

lemma push_ack_room:
  assumes "\<not> is_closed c" and "room c (length es + k)"
  shows "\<exists>c'. push_ack c es s = Ret (c', s) \<and> grows c c' \<and> room c' k"
  using chan_send_all_room [OF assms] by (auto simp: push_ack_def)

lemma local_world_measure:
  assumes "settles env m"
  shows "m (local_world env pkt s) \<le> m (net s)"
  using settles_Push [OF assms]
  by (auto simp: local_world_def split: option.splits)

lemma wr_Slice:
  "well_routed env \<Longrightarrow> pkt_Slice env pkt a = Some (mine, rest) \<Longrightarrow>
     length (dest rest) < length (dest pkt)"
  unfolding well_routed_def by blast

lemma wr_Forward:
  "well_routed env \<Longrightarrow> table_Forward env t pkt w = (routes, voids) \<Longrightarrow>
     sum_list (map (\<lambda>r. length (dest (snd r))) routes) + length voids \<le> length (dest pkt)"
  unfolding well_routed_def by (metis fst_conv snd_conv)

lemma wr_routes:
  "well_routed env \<Longrightarrow> table_Forward env t pkt w = (routes, voids) \<Longrightarrow> r \<in> set routes \<Longrightarrow>
     dest (snd r) \<noteq> []"
  unfolding well_routed_def by (metis fst_conv)

lemma wr_ack:
  "well_routed env \<Longrightarrow> pkt_Serialize env pkt = Inr data \<Longrightarrow>
     client_Forward env gw data w = (Inr es, w') \<Longrightarrow> length es \<le> length (dest pkt)"
  unfolding well_routed_def by blast


lemma relay_Send_ack:
  assumes "well_routed env" and "relay_Send env r pkt w = (Inr es, w')"
  shows "length es \<le> length (dest pkt)"
proof (cases r)
  case (unicastRelay gw st)
  with assms(2) obtain data where "pkt_Serialize env pkt = Inr data"
    and "client_Forward env gw data w = (Inr es, w')"
    by (auto simp: unicastRelay_Send_def split: sum.splits prod.splits)
  with wr_ack [OF assms(1)] show ?thesis by blast
next
  case (streamRelay gw st)
  with assms(2) have "es = []"
    by (auto simp: streamRelay_Send_def split: sum.splits prod.splits option.splits)
  then show ?thesis by simp
qed

lemma deliver_local_room:
  assumes o: "\<not> is_closed c" and w: "receiver c \<or> well_routed env"
    and r: "room c (length (dest pkt) + k)"
  shows "\<exists>c1. deliver_local env pkt c s = Ret (c1, s\<lparr>net := local_world env pkt s\<rparr>)
      \<and> grows c c1 \<and> room c1 (length (dest (after_Slice env pkt (me s))) + k)"
proof (cases "pkt_Slice env pkt (me s)")
  case None
  with grows_refl [of c] r show ?thesis
    by (simp add: deliver_local_def local_world_def after_Slice_def)
next
  case (Some a)
  obtain mine rest where a: "a = (mine, rest)" by (cases a)
  from w Some a wr_Slice [of env pkt "me s" mine rest]
  have lt: "receiver c \<or> Suc (length (dest rest) + k) \<le> length (dest pkt) + k" by auto
  from room_le [OF r lt] have r1: "room c (Suc (length (dest rest) + k))" .
  then have r0: "room c (length (dest rest) + k)" by (auto simp: room_def)
  obtain x w' where q: "queue_Push env mine (net s) = (x, w')"
    by (cases "queue_Push env mine (net s)")
  show ?thesis
  proof (cases x)
    case None
    with grows_refl [of c] Some a q r0 show ?thesis
      by (simp add: deliver_local_def local_world_def after_Slice_def)
  next
    case e: (Some e)
    from chan_send_room [OF o r1, of "address_String (me s) @ '' dropped the packet: '' @ e"]
    obtain c1 where
      "chan_send c (address_String (me s) @ '' dropped the packet: '' @ e) = Ret c1"
      "grows c c1" "room c1 (length (dest rest) + k)" by blast
    with e Some a q show ?thesis
      by (simp add: deliver_local_def local_world_def after_Slice_def)
  qed
qed

lemma onFailure_room:
  assumes st: "settles env m" and rb: "returns_below env m n retry" and so: "sends_only retry"
    and o: "\<not> is_closed c" and w: "receiver c \<or> well_routed env"
    and ne: "receiver c \<or> dest pkt \<noteq> []"
    and r: "room c (length (dest pkt) + k)" and le: "m (net s) \<le> n"
  shows "\<exists>c' s'. onFailure retry env p g pkt c s = Ret (c', s')
      \<and> grows c c' \<and> m (net s') \<le> m (net s) \<and> room c' k"
proof (cases "table_OnFailure env (table p) g (net s)")
  case (Pair x w')
  show ?thesis
  proof (cases x)
    case None
    from settles_OnFailure_None [OF st] Pair None have lt: "m w' < m (net s)" by blast
    with le have "m (net (s\<lparr>net := w'\<rparr>)) < n" by simp
    with rb o w r obtain b c' s' where
      1: "retry p pkt c (s\<lparr>net := w'\<rparr>) = Ret (b, c', s')" and 2: "m (net s') \<le> m w'"
      and 3: "room c' k"
      unfolding returns_below_def by fastforce
    from so o have "res_ok (\<lambda>r. grows c (fst (snd r))) (retry p pkt c (s\<lparr>net := w'\<rparr>))"
      unfolding sends_only_def by blast
    with 1 have "grows c c'" by simp
    with 1 2 3 lt Pair None show ?thesis by (simp add: onFailure_def)
  next
    case (Some e)
    from settles_OnFailure [OF st, of "table p" g "net s"] Pair have mw: "m w' \<le> m (net s)"
      by simp
    from ne have "receiver c \<or> Suc k \<le> length (dest pkt) + k"
      by (cases "dest pkt") auto
    from room_le [OF r this] have "room c (Suc k)" .
    from chan_send_room [OF o this] obtain c' where
      "chan_send c (''no route to '' @ address_String g @ '': '' @ e) = Ret c'" "grows c c'"
      "room c' k" by blast
    with mw Pair Some show ?thesis by (auto simp: onFailure_def)
  qed
qed

lemma sendTo_room:
  assumes st: "settles env m" and rb: "returns_below env m n retry" and so: "sends_only retry"
    and o: "\<not> is_closed c" and w: "receiver c \<or> well_routed env"
    and ne: "receiver c \<or> dest pkt \<noteq> []"
    and r: "room c (length (dest pkt) + k)" and le: "m (net s) \<le> n"
  shows "\<exists>c' s'. sendTo retry env p to pkt c s = Ret (c', s')
      \<and> grows c c' \<and> m (net s') \<le> m (net s) \<and> room c' k"
proof -
  from ne have "receiver c \<or> Suc k \<le> length (dest pkt) + k"
    by (cases "dest pkt") auto
  from room_le [OF r this] have r1: "room c (Suc k)" .
  have ack: "\<exists>c'. push_ack c es s2 = Ret (c', s2) \<and> grows c c' \<and> room c' k"
    if "relay_Send env rl pkt w0 = (Inr es, w')" for rl w0 es w' s2
  proof -
    from w relay_Send_ack [OF _ that] have "receiver c \<or> length es + k \<le> length (dest pkt) + k"
      by auto
    from room_le [OF r this] have "room c (length es + k)" .
    from push_ack_room [OF o this] show ?thesis .
  qed
  show ?thesis
  proof (cases to)
    case None
    obtain x w' where rs: "relay_Send env (relay p) pkt (net s) = (x, w')"
      by (cases "relay_Send env (relay p) pkt (net s)")
    from relay_Send_measure [OF st, of "relay p" pkt "net s"] rs have mw: "m w' \<le> m (net s)"
      by simp
    show ?thesis
    proof (cases x)
      case (Inl e)
      from chan_send_room [OF o r1] obtain c' where
        "chan_send c (''session '' @ address_String (me s) @ '' is closing: ''
            @ status_Code env e) = Ret c'" "grows c c'" "room c' k" by blast
      with None rs mw Inl show ?thesis by (auto simp: sendTo_def)
    next
      case (Inr es)
      with rs ack [of "relay p" "net s" es w' "s\<lparr>net := w'\<rparr>"] None mw show ?thesis
        by (auto simp: sendTo_def)
    qed
  next
    case (Some a)
    obtain x s1 where su: "setupRelay env p a s = (x, s1)"
      by (cases "setupRelay env p a s")
    from setupRelay_measure [OF st, of p a s] su have m1: "m (net s1) \<le> m (net s)" by simp
    with le have le1: "m (net s1) \<le> n" by simp
    show ?thesis
    proof (cases x)
      case (Inl e)
      from onFailure_room [OF st rb so o w ne r le1, of p a] obtain c' s' where
        "onFailure retry env p a pkt c s1 = Ret (c', s')" "grows c c'"
        "m (net s') \<le> m (net s1)" "room c' k"
        by blast
      with Some su Inl m1 show ?thesis by (auto simp: sendTo_def)
    next
      case (Inr rl)
      obtain y w' where rs: "relay_Send env rl pkt (net s1) = (y, w')"
        by (cases "relay_Send env rl pkt (net s1)")
      from relay_Send_measure [OF st, of rl pkt "net s1"] rs have mw: "m w' \<le> m (net s1)"
        by simp
      show ?thesis
      proof (cases y)
        case (Inl e)
        from mw le1 have "m (net (s1\<lparr>net := w'\<rparr>)) \<le> n" by simp
        from onFailure_room [OF st rb so o w ne r this, of p "GetDistantAddress rl"]
        obtain c' s' where
          "onFailure retry env p (GetDistantAddress rl) pkt c (s1\<lparr>net := w'\<rparr>) = Ret (c', s')"
          "grows c c'" "m (net s') \<le> m w'" "room c' k"
          by auto
        with Some su Inr rs Inl m1 mw show ?thesis by (auto simp: sendTo_def)
      next
        case r2: (Inr es)
        with rs ack [of rl "net s1" es w' "s1\<lparr>net := w'\<rparr>"] Some su Inr m1 mw show ?thesis
          by (auto simp: sendTo_def)
      qed
    qed
  qed
qed

lemma sendTo_all_room:
  assumes st: "settles env m" and rb: "returns_below env m n retry" and so: "sends_only retry"
  shows "\<not> is_closed c \<Longrightarrow> receiver c \<or> well_routed env \<Longrightarrow>
     (\<forall>r \<in> set routes. receiver c \<or> dest (snd r) \<noteq> []) \<Longrightarrow>
     room c (sum_list (map (\<lambda>r. length (dest (snd r))) routes) + k) \<Longrightarrow> m (net s) \<le> n \<Longrightarrow>
     \<exists>c' s'. sendTo_all retry env p routes c s = Ret (c', s')
        \<and> grows c c' \<and> m (net s') \<le> m (net s) \<and> room c' k"
proof (induction routes arbitrary: c s)
  case Nil
  then show ?case by (simp add: grows_refl)
next
  case (Cons x routes)
  obtain to pkt where x: "x = (to, pkt)" by (cases x)
  let ?rest = "sum_list (map (\<lambda>r. length (dest (snd r))) routes)"
  from Cons.prems(3) x have ne: "receiver c \<or> dest pkt \<noteq> []" by auto
  from Cons.prems(4) x have r: "room c (length (dest pkt) + (?rest + k))"
    by (simp add: add.assoc)
  from sendTo_room [OF st rb so Cons.prems(1) Cons.prems(2) ne r Cons.prems(5), of p to]
  obtain c1 s1 where
    1: "sendTo retry env p to pkt c s = Ret (c1, s1)" and g1: "grows c c1"
    and m1: "m (net s1) \<le> m (net s)" and r1: "room c1 (?rest + k)" by blast
  from g1 Cons.prems(1) have o1: "\<not> is_closed c1" by (simp add: grows_open)
  from g1 Cons.prems(2) have w1: "receiver c1 \<or> well_routed env" by (simp add: grows_receiver)
  from grows_receiver [OF g1] Cons.prems(3)
  have n1: "\<forall>r \<in> set routes. receiver c1 \<or> dest (snd r) \<noteq> []"
    by auto
  from m1 Cons.prems(5) have le1: "m (net s1) \<le> n" by simp
  from Cons.IH [OF o1 w1 n1 r1 le1] obtain c' s' where
    "sendTo_all retry env p routes c1 s1 = Ret (c', s')" "grows c1 c'"
    "m (net s') \<le> m (net s1)" "room c' k"
    by blast
  with 1 g1 m1 x show ?case by (auto intro: grows_trans)
qed

lemma sendPacket_body_room:
  assumes st: "settles env m" and rb: "returns_below env m n retry" and so: "sends_only retry"
    and o: "\<not> is_closed c" and w: "receiver c \<or> well_routed env"
    and r: "room c (length (dest pkt) + k)" and le: "m (net s) \<le> n"
  shows "\<exists>b c' s'. sendPacket_body retry env p pkt c s = Ret (b, c', s')
      \<and> grows c c' \<and> m (net s') \<le> m (net s) \<and> room c' k"
proof -
  let ?s1 = "s\<lparr>net := local_world env pkt s\<rparr>"
  let ?pkt = "after_Slice env pkt (me s)"
  from deliver_local_room [OF o w r, of s] obtain c1 where
    d: "deliver_local env pkt c s = Ret (c1, ?s1)"
    and g1: "grows c c1" and r1: "room c1 (length (dest ?pkt) + k)" by blast
  from local_world_measure [OF st, of pkt s] have m1: "m (net ?s1) \<le> m (net s)" by simp
  from g1 o have o1: "\<not> is_closed c1" by (simp add: grows_open)
  from g1 w have w1: "receiver c1 \<or> well_routed env" by (simp add: grows_receiver)
  obtain routes voids where
    f: "table_Forward env (table p) ?pkt (net ?s1) = (routes, voids)"
    by (cases "table_Forward env (table p) ?pkt (net ?s1)")
  let ?legs = "sum_list (map (\<lambda>r. length (dest (snd r))) routes)"
  from w1 wr_Forward [OF _ f]
  have "receiver c1 \<or> length (map void_error voids) + (?legs + k) \<le> length (dest ?pkt) + k"
    by auto
  from room_le [OF r1 this] have rv: "room c1 (length (map void_error voids) + (?legs + k))" .
  from chan_send_all_room [OF o1 rv] obtain c2 where
    v: "chan_send_all c1 (map void_error voids) = Ret c2" and g2: "grows c1 c2"
    and r2: "room c2 (?legs + k)" by blast
  from g2 o1 have o2: "\<not> is_closed c2" by (simp add: grows_open)
  from g2 w1 have w2: "receiver c2 \<or> well_routed env" by (simp add: grows_receiver)
  from g1 g2 have g12: "grows c c2" by (rule grows_trans)
  show ?thesis
  proof (cases "routes = [] \<and> voids = []")
    case True
    from r2 have "room c2 k" by (auto simp: room_def)
    with True d f v g12 m1 show ?thesis by (auto simp: sendPacket_body_def)
  next
    case False
    from m1 le have le1: "m (net ?s1) \<le> n" by simp
    from w2 wr_routes [OF _ f] have ne: "\<forall>r \<in> set routes. receiver c2 \<or> dest (snd r) \<noteq> []"
      by blast
    from sendTo_all_room [OF st rb so o2 w2 ne r2 le1, of p] obtain c3 s3 where
      "sendTo_all retry env p routes c2 ?s1 = Ret (c3, s3)" "grows c2 c3"
      "m (net s3) \<le> m (net ?s1)" "room c3 k" by blast
    with d f v g12 m1 False show ?thesis
      by (auto simp: sendPacket_body_def intro: grows_trans)
  qed
qed

lemma sendPacket_returns_below:
  fixes env :: "'w session_env"
  assumes "settles env m"
  shows "returns_below env m n (sendPacket n env)"
proof (induction n)
  case 0
  show ?case by (simp add: returns_below_def)
next
  case (Suc n)
  show ?case
    unfolding returns_below_def
  proof (intro allI impI)
    fix p c k and pkt :: packet and s :: "'w session"
    assume h: "\<not> is_closed c \<and> (receiver c \<or> well_routed env)
        \<and> room c (length (dest pkt) + k) \<and> m (net s) < Suc n"
    then have le: "m (net s) \<le> n" by simp
    from h have o: "\<not> is_closed c" and w: "receiver c \<or> well_routed env"
      and r: "room c (length (dest pkt) + k)" by simp_all
    from sendPacket_body_room [OF assms Suc sendPacket_sends_only [of n env] o w r le, of p]
    show "\<exists>b c' s'. sendPacket (Suc n) env p pkt c s = Ret (b, c', s')
        \<and> m (net s') \<le> m (net s) \<and> room c' k"
      by auto
  qed
qed

lemma sendPacket_returns:
  assumes "settles env m" and "\<not> is_closed c" and "receiver c \<or> well_routed env"
    and "room c (length (dest pkt) + k)" and "m (net s) < n"
  shows "\<exists>b c' s'. sendPacket n env p pkt c s = Ret (b, c', s')
      \<and> grows c c' \<and> m (net s') \<le> m (net s) \<and> room c' k"
proof -
  from sendPacket_returns_below [OF assms(1), of n] assms(2-5) obtain b c' s' where
    1: "sendPacket n env p pkt c s = Ret (b, c', s')" and "m (net s') \<le> m (net s)" "room c' k"
    unfolding returns_below_def by blast
  with sendPacket_grows [OF assms(2) 1] show ?thesis by blast
qed


subsection \<open>The channel returned by \<open>Send\<close>\<close>

lemma pushed_map_Pushed [simp]: "pushed (map Pushed es) = es"
  by (induction es) simp_all

lemma pushed_append [simp]: "pushed (xs @ ys) = pushed xs @ pushed ys"
  by (induction xs rule: pushed.induct) simp_all

lemma make_chan_open [simp]: "\<not> is_closed (make_chan k r)"
  by (simp add: make_chan_def is_closed_def)

lemma grows_make_chan:
  assumes "grows (make_chan k r) c"
  shows "\<exists>es. c = \<lparr>history = map Pushed es, cap = k, receiver = r\<rparr> \<and> (r \<or> length es \<le> k)"
  using assms unfolding grows_def make_chan_def room_def by auto

lemma chan_close_open:
  "\<not> is_closed c \<Longrightarrow> chan_close c = Ret (c\<lparr>history := history c @ [Closed]\<rparr>)"
  by (simp add: chan_close_def)





lemma sim_measure_decreases:
  assumes "a \<in> set xs" and "a \<notin> set av"
  shows "length (filter (\<lambda>x. x \<noteq> a \<and> x \<notin> set av) xs) < length (filter (\<lambda>x. x \<notin> set av) xs)"
proof -
  have "filter (\<lambda>x. x \<noteq> a \<and> x \<notin> set av) xs
      = filter (\<lambda>x. x \<noteq> a) (filter (\<lambda>x. x \<notin> set av) xs)"
    by (simp add: conj_commute)
  moreover have "a \<in> set (filter (\<lambda>x. x \<notin> set av) xs)"
    using assms by simp
  then have "length (filter (\<lambda>x. x \<noteq> a) (filter (\<lambda>x. x \<notin> set av) xs))
      < length (filter (\<lambda>x. x \<notin> set av) xs)"
    by (rule length_filter_less) simp
  ultimately show ?thesis by simp
qed

lemma sim_env_settles: "settles sim_env sim_measure"
  unfolding settles_def
  by (auto simp: sim_env_def sim_measure_def sim_OnFailure_def sim_measure_decreases
      less_imp_le)

lemma sum_ones: "sum_list (map (\<lambda>x. Suc 0) xs) = length xs"
  by (induction xs) simp_all

lemma sim_env_well_routed: "well_routed sim_env"
proof -
  have slice: "length (dest rest) < length (dest pkt)"
    if "sim_Slice pkt a = Some (mine, rest)" for pkt a mine rest
  proof -
    from that have a: "a \<in> set (dest pkt)" and r: "rest = pkt\<lparr>dest := filter (\<lambda>d. d \<noteq> a) (dest pkt)\<rparr>"
      by (auto simp: sim_Slice_def split: if_splits)
    from a have "length (filter (\<lambda>d. d \<noteq> a) (dest pkt)) < length (dest pkt)"
      by (rule length_filter_less) simp
    with r show ?thesis by simp
  qed
  have fwd: "sum_list (map (\<lambda>r. length (dest (snd r))) (fst (sim_Forward pkt w)))
      + length (snd (sim_Forward pkt w)) \<le> length (dest pkt)" for pkt w
    using sum_length_filter_compl [of "\<lambda>d. d \<notin> set (avoided w)" "dest pkt"]
    by (simp add: sim_Forward_def comp_def sum_ones)
  have ne: "dest (snd r) \<noteq> []" if "r \<in> set (fst (sim_Forward pkt w))" for r pkt w
    using that by (auto simp: sim_Forward_def)
  show ?thesis
    unfolding well_routed_def
    using slice fwd ne by (simp add: sim_env_def)
qed


text \<open>
  C5. When the message does not serialise, the channel returned by \<open>Send\<close> holds the
  serialisation error and nothing else, and is closed; the session and the world (relays,
  wait group, queue, connections, peers) are as they were before the call.
\<close>

theorem Send_serialization_failure:
  assumes "msg_Serialize env msg = Inl e"
  shows "Send n env drained msg addrs s =
     (map Unwrap addrs,
      Ret (\<lparr>history = [Pushed (''failed to serialize msg: '' @ e), Closed],
            cap = length addrs + 1, receiver = drained\<rparr>, s))"
  using assms
  by (simp add: Send_def Send_goroutine_def chan_send_def chan_close_def is_closed_def
      make_chan_def)

text \<open>C5, on the small network, with a message that does not serialise.\<close>

theorem Send_serialization_failure_witness:
  "msg_Serialize sim_env OtherMessage = Inl ''unsupported message''
   \<and> Send 2 sim_env False OtherMessage [Addr ''B'', Addr ''C''] sim_session =
     ([Addr ''B'', Addr ''C''],
      Ret (\<lparr>history = [Pushed ''failed to serialize msg: unsupported message'', Closed],
            cap = 3, receiver = False\<rparr>, sim_session))"
proof -
  have h: "msg_Serialize sim_env OtherMessage = Inl ''unsupported message''"
    by (simp add: sim_env_def)
  from Send_serialization_failure [OF h, of 2 False "[Addr ''B'', Addr ''C'']" sim_session] h
  show ?thesis by simp
qed

subsection \<open>\<open>RecvPacket\<close>\<close>

lemma recv_parents_refused:
  assumes "\<forall>kp \<in> set ps1. \<exists>c' s'.
      sendPacket n env (snd kp) pkt (make_chan (length (dest pkt)) False) s = Ret (False, c', s')"
  shows "recv_parents (sendPacket n env) pkt np (ps1 @ ps2) s
     = recv_parents (sendPacket n env) pkt np ps2 s"
  using assms
proof (induction ps1)
  case Nil
  show ?case by simp
next
  case (Cons kp ps1)
  obtain k p where kp: "kp = (k, p)" by (cases kp)
  from Cons.prems kp obtain c' s' where
    r: "sendPacket n env p pkt (make_chan (length (dest pkt)) False) s = Ret (False, c', s')"
    by auto
  from sendPacket_refuses [OF r] have "c' = make_chan (length (dest pkt)) False" "s' = s"
    by simp_all
  with r Cons kp show ?case
    by (simp add: chan_close_open)
qed

lemma RecvPacket_malformed:
  assumes "pktFac_PacketOf env wire = Inl e"
  shows "RecvPacket n env from wire s = Ret (Inl (''packet malformed: '' @ e), s)"
  using assms by (simp add: RecvPacket_def)

lemma RecvPacket_accepted:
  assumes w: "pktFac_PacketOf env wire = Inr pkt"
    and ps: "parents s = refused @ (k, p) # others"
    and rf: "\<forall>kp \<in> set refused. \<exists>c' s'.
        sendPacket n env (snd kp) pkt (make_chan (length (dest pkt)) False) s
          = Ret (False, c', s')"
    and sp: "sendPacket n env p pkt (make_chan (length (dest pkt)) False) s = Ret (True, c, s1)"
  shows "RecvPacket n env from wire s = Ret (Inr (pushed (history c)), s1)
      \<and> history c = map Pushed (pushed (history c))
      \<and> length (pushed (history c)) \<le> length (dest pkt)"
proof -
  have g: "grows (make_chan (length (dest pkt)) False) c"
    by (rule sendPacket_grows [OF make_chan_open sp])
  then have o: "\<not> is_closed c" using grows_open by fastforce
  from grows_make_chan [OF g] obtain es where es: "history c = map Pushed es"
    and le: "length es \<le> length (dest pkt)" by auto
  from w ps have "RecvPacket n env from wire s
      = recv_parents (sendPacket n env) pkt (length (parents s)) ((k, p) # others) s"
    using recv_parents_refused [OF rf, of "length (parents s)" "(k, p) # others"]
    by (simp add: RecvPacket_def)
  with sp chan_close_open [OF o] es le show ?thesis
    by simp
qed

lemma RecvPacket_dropped:
  assumes w: "pktFac_PacketOf env wire = Inr pkt"
    and rf: "\<forall>kp \<in> set (parents s). \<exists>c' s'.
        sendPacket n env (snd kp) pkt (make_chan (length (dest pkt)) False) s
          = Ret (False, c', s')"
  shows "RecvPacket n env from wire s
      = Ret (Inl (''packet is dropped (tried '' @ show_nat (length (parents s))
                    @ '' parent-s)''), s)"
  using w recv_parents_refused [OF rf, of "length (parents s)" "[]"]
  by (simp add: RecvPacket_def)

text \<open>
  C7. \<open>RecvPacket\<close> returns "packet malformed" when the packet does not deserialise.
  Otherwise it goes through the parents in order: past the parents for which
  \<open>sendPacket\<close> returns false, at the first parent for which it returns true
  \<open>RecvPacket\<close> returns the acknowledgement whose errors are the errors sent on the
  channel of that call, in order; these are all that the channel holds, and no more
  than the packet has destinations. When \<open>sendPacket\<close> returns false for every parent,
  the error "packet is dropped" gives the number of parents. And \<open>RecvPacket\<close> does
  return, in one of these three ways, at every depth of retries above the measure of the
  world, when the routing table settles and the collaborators keep to one error for
  each destination, so that the slots of the channel are enough.
\<close>

theorem RecvPacket_outcomes:
  "(pktFac_PacketOf env wire = Inl e \<longrightarrow>
      RecvPacket n env from wire s = Ret (Inl (''packet malformed: '' @ e), s))
   \<and> (pktFac_PacketOf env wire = Inr pkt
        \<and> parents s = refused @ (k, p) # others
        \<and> (\<forall>kp \<in> set refused. \<exists>c' s'.
              sendPacket n env (snd kp) pkt (make_chan (length (dest pkt)) False) s
                = Ret (False, c', s'))
        \<and> sendPacket n env p pkt (make_chan (length (dest pkt)) False) s = Ret (True, c, s1)
      \<longrightarrow> RecvPacket n env from wire s = Ret (Inr (pushed (history c)), s1)
          \<and> history c = map Pushed (pushed (history c))
          \<and> length (pushed (history c)) \<le> length (dest pkt))
   \<and> (pktFac_PacketOf env wire = Inr pkt
        \<and> (\<forall>kp \<in> set (parents s). \<exists>c' s'.
              sendPacket n env (snd kp) pkt (make_chan (length (dest pkt)) False) s
                = Ret (False, c', s'))
      \<longrightarrow> RecvPacket n env from wire s
          = Ret (Inl (''packet is dropped (tried '' @ show_nat (length (parents s))
                        @ '' parent-s)''), s))
   \<and> (settles env m \<and> well_routed env \<and> m (net s) < n \<longrightarrow>
        (\<exists>e'. pktFac_PacketOf env wire = Inl e'
              \<and> RecvPacket n env from wire s = Ret (Inl (''packet malformed: '' @ e'), s))
      \<or> (\<exists>pkt' before k' p' after c' s'.
            pktFac_PacketOf env wire = Inr pkt'
          \<and> parents s = before @ (k', p') # after
          \<and> (\<forall>kp \<in> set before.
                sendPacket n env (snd kp) pkt' (make_chan (length (dest pkt')) False) s
                  = Ret (False, make_chan (length (dest pkt')) False, s))
          \<and> sendPacket n env p' pkt' (make_chan (length (dest pkt')) False) s
                = Ret (True, c', s')
          \<and> RecvPacket n env from wire s = Ret (Inr (pushed (history c')), s')
          \<and> history c' = map Pushed (pushed (history c'))
          \<and> length (pushed (history c')) \<le> length (dest pkt'))
      \<or> (\<exists>pkt'. pktFac_PacketOf env wire = Inr pkt'
          \<and> (\<forall>kp \<in> set (parents s).
                sendPacket n env (snd kp) pkt' (make_chan (length (dest pkt')) False) s
                  = Ret (False, make_chan (length (dest pkt')) False, s))
          \<and> RecvPacket n env from wire s
              = Ret (Inl (''packet is dropped (tried '' @ show_nat (length (parents s))
                            @ '' parent-s)''), s)))"
proof -
  have total: "(\<exists>e'. pktFac_PacketOf env wire = Inl e'
              \<and> RecvPacket n env from wire s = Ret (Inl (''packet malformed: '' @ e'), s))
      \<or> (\<exists>pkt' before k' p' after c' s'.
            pktFac_PacketOf env wire = Inr pkt'
          \<and> parents s = before @ (k', p') # after
          \<and> (\<forall>kp \<in> set before.
                sendPacket n env (snd kp) pkt' (make_chan (length (dest pkt')) False) s
                  = Ret (False, make_chan (length (dest pkt')) False, s))
          \<and> sendPacket n env p' pkt' (make_chan (length (dest pkt')) False) s
                = Ret (True, c', s')
          \<and> RecvPacket n env from wire s = Ret (Inr (pushed (history c')), s')
          \<and> history c' = map Pushed (pushed (history c'))
          \<and> length (pushed (history c')) \<le> length (dest pkt'))
      \<or> (\<exists>pkt'. pktFac_PacketOf env wire = Inr pkt'
          \<and> (\<forall>kp \<in> set (parents s).
                sendPacket n env (snd kp) pkt' (make_chan (length (dest pkt')) False) s
                  = Ret (False, make_chan (length (dest pkt')) False, s))
          \<and> RecvPacket n env from wire s
              = Ret (Inl (''packet is dropped (tried '' @ show_nat (length (parents s))
                            @ '' parent-s)''), s))"
    if h: "settles env m \<and> well_routed env \<and> m (net s) < n"
  proof (cases "pktFac_PacketOf env wire")
    case (Inl e')
    with RecvPacket_malformed [OF Inl] show ?thesis by blast
  next
    case (Inr pkt')
    let ?c0 = "make_chan (length (dest pkt')) False"
    let ?yes = "\<lambda>kp. \<exists>c' s'. sendPacket n env (snd kp) pkt' ?c0 s = Ret (True, c', s')"
    from h have st: "settles env m" and wr: "well_routed env" and lt: "m (net s) < n"
      by simp_all
    have r0: "room ?c0 (length (dest pkt') + 0)" by (simp add: room_def make_chan_def)
    have no: "sendPacket n env (snd kp) pkt' ?c0 s = Ret (False, ?c0, s)" if "\<not> ?yes kp" for kp
    proof -
      from sendPacket_returns [OF st make_chan_open _ r0 lt, of "snd kp"] wr
      obtain b c1 s1 where 1: "sendPacket n env (snd kp) pkt' ?c0 s = Ret (b, c1, s1)"
        by blast
      with that have "\<not> b" by auto
      with 1 sendPacket_refuses [of n env "snd kp" pkt' ?c0 s c1 s1] show ?thesis by simp
    qed
    show ?thesis
    proof (cases "\<exists>kp \<in> set (parents s). ?yes kp")
      case True
      from split_list_first_prop [OF True] obtain before kp after where
        ps: "parents s = before @ kp # after" and y: "?yes kp"
        and nb: "\<forall>x \<in> set before. \<not> ?yes x" by blast
      obtain k' p' where kp: "kp = (k', p')" by (cases kp)
      from y kp obtain c' s' where sp: "sendPacket n env p' pkt' ?c0 s = Ret (True, c', s')"
        by auto
      from nb no have rf: "\<forall>x \<in> set before. sendPacket n env (snd x) pkt' ?c0 s = Ret (False, ?c0, s)"
        by blast
      then have rf': "\<forall>x \<in> set before. \<exists>c' s'. sendPacket n env (snd x) pkt' ?c0 s = Ret (False, c', s')"
        by blast
      from RecvPacket_accepted [OF Inr _ rf' sp, of k' after "from"] ps kp
      have "RecvPacket n env from wire s = Ret (Inr (pushed (history c')), s')
          \<and> history c' = map Pushed (pushed (history c'))
          \<and> length (pushed (history c')) \<le> length (dest pkt')" by simp
      with Inr ps kp rf sp show ?thesis by blast
    next
      case False
      with no have rf: "\<forall>x \<in> set (parents s). sendPacket n env (snd x) pkt' ?c0 s = Ret (False, ?c0, s)"
        by blast
      then have "\<forall>x \<in> set (parents s). \<exists>c' s'. sendPacket n env (snd x) pkt' ?c0 s = Ret (False, c', s')"
        by blast
      from RecvPacket_dropped [OF Inr this, of "from"] Inr rf show ?thesis by blast
    qed
  qed
  have 1: "RecvPacket n env from wire s = Ret (Inl (''packet malformed: '' @ e), s)"
    if "pktFac_PacketOf env wire = Inl e"
    using that by (rule RecvPacket_malformed)
  have 2: "RecvPacket n env from wire s = Ret (Inr (pushed (history c)), s1)
          \<and> history c = map Pushed (pushed (history c))
          \<and> length (pushed (history c)) \<le> length (dest pkt)"
    if "pktFac_PacketOf env wire = Inr pkt
        \<and> parents s = refused @ (k, p) # others
        \<and> (\<forall>kp \<in> set refused. \<exists>c' s'.
              sendPacket n env (snd kp) pkt (make_chan (length (dest pkt)) False) s
                = Ret (False, c', s'))
        \<and> sendPacket n env p pkt (make_chan (length (dest pkt)) False) s = Ret (True, c, s1)"
    using that RecvPacket_accepted [of env wire pkt s refused k p others n c s1 "from"] by blast
  have 3: "RecvPacket n env from wire s
          = Ret (Inl (''packet is dropped (tried '' @ show_nat (length (parents s))
                        @ '' parent-s)''), s)"
    if "pktFac_PacketOf env wire = Inr pkt
        \<and> (\<forall>kp \<in> set (parents s). \<exists>c' s'.
              sendPacket n env (snd kp) pkt (make_chan (length (dest pkt)) False) s
                = Ret (False, c', s'))"
    using that RecvPacket_dropped [of env wire pkt s n "from"] by blast
  from 1 2 3 total show ?thesis by blast
qed

text \<open>
  C7, on the small network: a packet that does not deserialise, a packet for \<open>B\<close>
  received by a session with one parent, the same packet on a session without parents,
  and the premises under which \<open>RecvPacket\<close> returns.
\<close>

theorem RecvPacket_outcomes_witness:
  "RecvPacket 2 sim_env (Addr ''C'') [] sim_session
     = Ret (Inl ''packet malformed: empty packet'', sim_session)
   \<and> RecvPacket 2 sim_env (Addr ''C'') ''B'' sim_session
     = Ret (Inr [''no route to B: address is unreachable''],
            sim_session\<lparr>net := sim0\<lparr>avoided := [Addr ''B'']\<rparr>\<rparr>)
   \<and> RecvPacket 2 sim_env (Addr ''C'') ''B'' (NewSession (Addr ''A'') sim0)
     = Ret (Inl ''packet is dropped (tried 0 parent-s)'', NewSession (Addr ''A'') sim0)
   \<and> settles sim_env sim_measure \<and> well_routed sim_env \<and> sim_measure (net sim_session) < 4
   \<and> RecvPacket 4 sim_env (Addr ''C'') ''B'' sim_session
     = Ret (Inr [''no route to B: address is unreachable''],
            sim_session\<lparr>net := sim0\<lparr>avoided := [Addr ''B'']\<rparr>\<rparr>)"
proof -
  let ?pkt = "\<lparr>source = Addr ''A'', dest = [Addr ''B''], payload = ''data''\<rparr>"
  have w0: "pktFac_PacketOf sim_env [] = Inl ''empty packet''"
    by (simp add: sim_env_def)
  have w1: "pktFac_PacketOf sim_env ''B'' = Inr ?pkt"
    by (simp add: sim_env_def)
  have p1: "parents sim_session = [] @ (Addr ''O'', sim_parent) # []"
    by (simp add: sim_defs)
  have sp: "sendPacket 2 sim_env sim_parent ?pkt (make_chan (length (dest ?pkt)) False) sim_session
      = Ret (True, \<lparr>history = [Pushed ''no route to B: address is unreachable''],
                     cap = 1, receiver = False\<rparr>,
             sim_session\<lparr>net := sim0\<lparr>avoided := [Addr ''B'']\<rparr>\<rparr>)"
    by (simp add: numeral_eq_Suc sim_defs run_defs)
  have p0: "\<forall>kp \<in> set (parents (NewSession (Addr ''A'') sim0)). \<exists>c' s'.
      sendPacket 2 sim_env (snd kp) ?pkt (make_chan (length (dest ?pkt)) False)
        (NewSession (Addr ''A'') sim0) = Ret (False, c', s')"
    by (simp add: NewSession_def)
  have l0: "length (parents (NewSession (Addr ''A'') sim0)) = 0"
    by (simp add: NewSession_def)
  have m: "sim_measure (net sim_session) < 4"
    by (simp add: sim_measure_def sim_defs)
  from RecvPacket_outcomes [of sim_env "[]" "''empty packet''" 2 "Addr ''C''" sim_session] w0
  have a: "RecvPacket 2 sim_env (Addr ''C'') [] sim_session
     = Ret (Inl ''packet malformed: empty packet'', sim_session)"
    by simp
  from RecvPacket_outcomes [of sim_env "''B''" _ 2 "Addr ''C''" sim_session ?pkt "[]"
      "Addr ''O''" sim_parent "[]" _ _] w1 p1 sp
  have b: "RecvPacket 2 sim_env (Addr ''C'') ''B'' sim_session
     = Ret (Inr [''no route to B: address is unreachable''],
            sim_session\<lparr>net := sim0\<lparr>avoided := [Addr ''B'']\<rparr>\<rparr>)"
    by simp
  from RecvPacket_outcomes [of sim_env "''B''" _ 2 "Addr ''C''" "NewSession (Addr ''A'') sim0"
      ?pkt] w1 p0 l0
  have c: "RecvPacket 2 sim_env (Addr ''C'') ''B'' (NewSession (Addr ''A'') sim0)
     = Ret (Inl ''packet is dropped (tried 0 parent-s)'', NewSession (Addr ''A'') sim0)"
    by (simp add: digit_char_def)
  have d: "RecvPacket 4 sim_env (Addr ''C'') ''B'' sim_session
     = Ret (Inr [''no route to B: address is unreachable''],
            sim_session\<lparr>net := sim0\<lparr>avoided := [Addr ''B'']\<rparr>\<rparr>)"
    by (simp add: numeral_eq_Suc sim_defs run_defs)
  from RecvPacket_outcomes [where env = sim_env and wire = "''B''" and n = 4
      and ?from = "Addr ''C''" and s = sim_session and m = sim_measure]
    sim_env_settles sim_env_well_routed m a b c d
  show ?thesis by blast
qed

subsection \<open>The addresses of \<open>Send\<close> and \<open>Recv\<close>\<close>

lemma relay_Send_Make [simp]:
  "relay_Send (env\<lparr>table_Make := mk\<rparr>) r pkt w = relay_Send env r pkt w"
  by (cases r)
    (simp_all add: unicastRelay_Send_def streamRelay_Send_def cong: sum.case_cong)

lemma setupRelay_Make [simp]:
  "setupRelay (env\<lparr>table_Make := mk\<rparr>) p a s = setupRelay env p a s"
  by (simp add: setupRelay_def cong: sum.case_cong option.case_cong)

lemma onFailure_Make [simp]:
  "onFailure retry (env\<lparr>table_Make := mk\<rparr>) p g pkt c s = onFailure retry env p g pkt c s"
  by (simp add: onFailure_def cong: sum.case_cong option.case_cong)

lemma sendTo_Make [simp]:
  "sendTo retry (env\<lparr>table_Make := mk\<rparr>) p to pkt c s = sendTo retry env p to pkt c s"
  by (simp add: sendTo_def cong: sum.case_cong option.case_cong)

lemma sendTo_all_Make [simp]:
  "sendTo_all retry (env\<lparr>table_Make := mk\<rparr>) p routes c s = sendTo_all retry env p routes c s"
  by (induction routes arbitrary: c s) (auto split: res.splits)

lemma deliver_local_Make [simp]:
  "deliver_local (env\<lparr>table_Make := mk\<rparr>) pkt c s = deliver_local env pkt c s"
  by (simp add: deliver_local_def cong: option.case_cong)

lemma after_Slice_Make [simp]:
  "after_Slice (env\<lparr>table_Make := mk\<rparr>) pkt a = after_Slice env pkt a"
  by (simp add: after_Slice_def)

lemma sliced_Make [simp]: "sliced (env\<lparr>table_Make := mk\<rparr>) pkt a = sliced env pkt a"
  by (simp add: sliced_def)

lemma sendPacket_body_Make [simp]:
  "sendPacket_body retry (env\<lparr>table_Make := mk\<rparr>) p pkt c s
     = sendPacket_body retry env p pkt c s"
  by (simp add: sendPacket_body_def
      cong: res.case_cong prod.case_cong if_cong)

lemma sendPacket_Make [simp]: "sendPacket n (env\<lparr>table_Make := mk\<rparr>) = sendPacket n env"
proof (induction n)
  case 0
  show ?case by simp
next
  case (Suc n)
  have "sendPacket_body (sendPacket n env) (env\<lparr>table_Make := mk\<rparr>)
      = sendPacket_body (sendPacket n env) env"
    by (simp add: fun_eq_iff)
  with Suc show ?case by simp
qed

lemma send_parents_Make:
  assumes "\<forall>t src d w. mk t src addrs d w = table_Make env t src addrs d w"
  shows "send_parents sp (env\<lparr>table_Make := mk\<rparr>) data addrs ps c s
     = send_parents sp env data addrs ps c s"
  using assms by (induction ps arbitrary: c s) (auto split: res.splits)

lemma Unwrap_fixed: "Unwrap a = a \<Longrightarrow> a \<noteq> WrapAddr b"
  by (cases a) auto

text \<open>
  C9. \<open>Send\<close> leaves in the slice of its caller each wrapped address replaced by the
  address inside, so the slice has changed as soon as it held a wrapped address. The
  packets are made from the unwrapped addresses: what \<open>Make\<close> would return for any
  other list of addresses has no effect on the send. \<open>Recv\<close> returns the source of the
  packet wrapped, and unwrapping it gives the source back.
\<close>

theorem Send_unwraps_in_place:
  "fst (Send n env drained msg addrs s) = map Unwrap addrs
   \<and> (WrapAddr a \<in> set addrs \<longrightarrow> fst (Send n env drained msg addrs s) \<noteq> addrs)
   \<and> ((\<forall>t src d w. mk t src (map Unwrap addrs) d w
                     = table_Make env t src (map Unwrap addrs) d w)
        \<longrightarrow> Send n (env\<lparr>table_Make := mk\<rparr>) drained msg addrs s = Send n env drained msg addrs s)
   \<and> (msgFac_Deserialize env (payload pkt) = Inr m
        \<longrightarrow> Recv env (FromQueue pkt) = Inr (WrapAddr (source pkt), m)
          \<and> Unwrap (WrapAddr (source pkt)) = source pkt)"
proof -
  have 1: "fst (Send n env drained msg addrs s) = map Unwrap addrs"
    by (simp add: Send_def)
  have 2: "fst (Send n env drained msg addrs s) \<noteq> addrs" if "WrapAddr a \<in> set addrs"
  proof
    assume "fst (Send n env drained msg addrs s) = addrs"
    with 1 have "map Unwrap addrs = addrs" by simp
    then have "\<forall>x \<in> set addrs. Unwrap x = x" by (simp add: map_idI map_eq_conv [symmetric] list.map_id)
    with that have "Unwrap (WrapAddr a) = WrapAddr a" by blast
    with Unwrap_fixed show False by blast
  qed
  have 3: "Send n (env\<lparr>table_Make := mk\<rparr>) drained msg addrs s = Send n env drained msg addrs s"
    if "\<forall>t src d w. mk t src (map Unwrap addrs) d w
                     = table_Make env t src (map Unwrap addrs) d w"
    using send_parents_Make [of mk "map Unwrap addrs" env, OF that]
    by (simp add: Send_def Send_goroutine_def cong: sum.case_cong)
  have 4: "Recv env (FromQueue pkt) = Inr (WrapAddr (source pkt), m)
          \<and> Unwrap (WrapAddr (source pkt)) = source pkt"
    if "msgFac_Deserialize env (payload pkt) = Inr m"
    using that by simp
  from 1 2 3 4 show ?thesis by blast
qed


text \<open>
  C9, on the small network: the slice that held the wrapped \<open>B\<close> holds \<open>B\<close> after
  the call.
\<close>

theorem Send_unwraps_in_place_witness:
  "WrapAddr (Addr ''B'') \<in> set [WrapAddr (Addr ''B''), Addr ''C'']
   \<and> fst (Send 3 sim_env False SyncAck [WrapAddr (Addr ''B''), Addr ''C''] sim_session)
       = [Addr ''B'', Addr ''C'']
   \<and> fst (Send 3 sim_env False SyncAck [WrapAddr (Addr ''B''), Addr ''C''] sim_session)
       \<noteq> [WrapAddr (Addr ''B''), Addr ''C'']
   \<and> Send 3 (sim_env\<lparr>table_Make := (\<lambda>t src dsts data w.
          \<lparr>source = src, dest = (if dsts = [Addr ''B'', Addr ''C''] then dsts else []),
            payload = data\<rparr>)\<rparr>) False SyncAck [WrapAddr (Addr ''B''), Addr ''C''] sim_session
       = Send 3 sim_env False SyncAck [WrapAddr (Addr ''B''), Addr ''C''] sim_session
   \<and> Recv sim_env (FromQueue \<lparr>source = Addr ''C'', dest = [Addr ''A''], payload = ''data''\<rparr>)
       = Inr (WrapAddr (Addr ''C''), SyncAck)"
  using Send_unwraps_in_place [where n = 3 and env = sim_env and drained = False
      and msg = SyncAck
      and addrs = "[WrapAddr (Addr ''B''), Addr ''C'']" and s = sim_session
      and a = "Addr ''B''"
      and mk = "\<lambda>t src dsts data w.
          \<lparr>source = src, dest = (if dsts = [Addr ''B'', Addr ''C''] then dsts else []),
            payload = data\<rparr>"
      and pkt = "\<lparr>source = Addr ''C'', dest = [Addr ''A''], payload = ''data''\<rparr>"
      and m = SyncAck]
  by (simp add: sim_env_def)

end
